theory Spec2Isabelle
  imports Main
begin

unbundle bit_operations_syntax

section \<open>pydle/async.py: futures, coroutines, parallel joins and the event loop\<close>

text \<open>
  The module is a thin layer over tornado: \<open>Future\<close> subclasses tornado's future,
  \<open>coroutine\<close> drives a generator by chaining completion callbacks, \<open>parallel\<close> joins
  several futures, and \<open>EventLoop\<close> wraps tornado's \<open>IOLoop\<close>.

  Python objects live in a store and are named by their allocation index (object
  identity). Closures are defunctionalised: the \<open>done\<close> closure of one \<open>parallel\<close> call is
  \<open>Done j\<close>, where \<open>j\<close> names the cell variables \<open>result_future\<close>, \<open>results\<close> and \<open>futures\<close>
  of that call; the \<open>handle_future\<close> closure of one \<open>wrapper\<close> call is \<open>HandleFuture c\<close>,
  where \<open>c\<close> names its cell variables \<open>gen\<close> and \<open>return_future\<close>.
\<close>

subsection \<open>Values and exceptions\<close>

datatype val = VNone | VBool bool | VInt int | VStr string | VList "val list"

text \<open>
  Instances of \<open>Exception\<close> other than \<open>StopIteration\<close>, which the generator outcome
  below carries separately. \<open>AlreadySettled\<close> is the error of the specification's future,
  \<open>ValueError\<close> is what \<open>list.remove\<close> raises, \<open>AttributeError\<close> is what calling
  \<open>add_done_callback\<close> on an object without that method raises, \<open>KeyError\<close> is
  what a dictionary raises for a missing key, \<open>TypeError\<close> is what \<open>next\<close> raises on an
  object that is not an iterator.
\<close>

datatype exn = AlreadySettled | ValueError | AttributeError | KeyError | TypeError | Error string

subsection \<open>The store\<close>

type_synonym fid = nat
type_synonym jid = nat
type_synonym cid = nat

datatype fut_state = Pending | Resolved val | Failed exn

datatype callback = Done jid | HandleFuture cid

text \<open>What a generator hands to the trampoline at a \<open>yield\<close>.\<close>

datatype yielded = YFuture fid | YTuple "fid list" | YOther val

text \<open>
  A generator, as the tree of its interactions: it yields a value and continues
  according to what is sent or thrown into it, or it returns (raising
  \<open>StopIteration\<close> with the value), or it raises. The tree may be infinite. The body of
  a generator does not touch the store.
\<close>

codatatype gen = Yield yielded "val \<Rightarrow> gen" "exn \<Rightarrow> gen" | Return val | Raise exn

text \<open>
  What the call \<open>func(*args, **kwargs)\<close> of the wrapped function does: a generator
  function returns its generator without running the body; another function returns
  a value, which is no iterator, or raises.
\<close>

datatype called = Generator gen | Value val | Raising exn

text \<open>A generator object: suspended at a \<open>yield\<close>, or exhausted.\<close>

datatype gen_obj = Suspended "val \<Rightarrow> gen" "exn \<Rightarrow> gen" | Finished

datatype outcome = Yielded yielded | StopIteration val | Raised exn

record join =
  j_result_future :: fid
  j_results :: "(fid \<times> val) list"
  j_futures :: "fid list"

record coro =
  c_gen :: gen_obj
  c_return_future :: fid

record world =
  fstate :: "fid \<Rightarrow> fut_state"
  fcallbacks :: "fid \<Rightarrow> callback list"
  nfutures :: nat
  joins :: "jid \<Rightarrow> join"
  njoins :: nat
  coros :: "cid \<Rightarrow> coro"
  ncoros :: nat
  escaped :: "exn list"

text \<open>
  The result of a call: \<open>None\<close> when the call does not return; otherwise the store
  after the call and the exception it raised, if any.
\<close>

type_synonym result = "(exn option \<times> world) option"

text \<open>How a callback is called. The operations take it as a parameter.\<close>

type_synonym call = "callback \<Rightarrow> fid \<Rightarrow> world \<Rightarrow> result"

subsection \<open>Future\<close>

text \<open>
  Modelled from the spec: the class \<open>Future\<close> has an empty body; its behaviour is that
  of \<open>tornado.concurrent.TracebackFuture\<close>, which is not part of this repository. The
  definitions of this subsection follow sections 3 and 4.1 of the specification: a
  future is pending, resolved or failed; settling a settled future is the error
  \<open>AlreadySettled\<close>; settling runs every registered callback once, in registration order,
  with the future as argument; a callback added after settlement is invoked immediately;
  \<open>result()\<close> raises the stored error of a failed future and does not return on a
  pending one. The specification does not say where an exception goes that a callback
  raises while \<open>set_result\<close> runs the callbacks; since every callback is to be invoked, it
  is recorded in \<open>escaped\<close> and the next callback runs.
\<close>

definition Future :: "world \<Rightarrow> fid \<times> world" where
  "Future w = (nfutures w,
     w\<lparr>fstate := (fstate w)(nfutures w := Pending),
       fcallbacks := (fcallbacks w)(nfutures w := []),
       nfutures := Suc (nfutures w)\<rparr>)"

definition log_escaped :: "exn option \<Rightarrow> world \<Rightarrow> world" where
  "log_escaped x w = (case x of None \<Rightarrow> w | Some e \<Rightarrow> w\<lparr>escaped := escaped w @ [e]\<rparr>)"

fun run_callbacks :: "call \<Rightarrow> callback list \<Rightarrow> fid \<Rightarrow> world \<Rightarrow> world option" where
  "run_callbacks call [] f w = Some w"
| "run_callbacks call (cb # cbs) f w =
     (case call cb f w of
        None \<Rightarrow> None
      | Some (x, w') \<Rightarrow> run_callbacks call cbs f (log_escaped x w'))"

definition settle :: "call \<Rightarrow> fid \<Rightarrow> fut_state \<Rightarrow> world \<Rightarrow> result" where
  "settle call f st w =
     (if fstate w f \<noteq> Pending then Some (Some AlreadySettled, w)
      else case run_callbacks call (fcallbacks w f) f (w\<lparr>fstate := (fstate w)(f := st)\<rparr>) of
             None \<Rightarrow> None
           | Some w' \<Rightarrow> Some (None, w'))"

definition set_result :: "call \<Rightarrow> fid \<Rightarrow> val \<Rightarrow> world \<Rightarrow> result" where
  "set_result call f v w = settle call f (Resolved v) w"

definition set_exception :: "call \<Rightarrow> fid \<Rightarrow> exn \<Rightarrow> world \<Rightarrow> result" where
  "set_exception call f e w = settle call f (Failed e) w"

definition add_done_callback :: "call \<Rightarrow> fid \<Rightarrow> callback \<Rightarrow> world \<Rightarrow> result" where
  "add_done_callback call f cb w =
     (case fstate w f of
        Pending \<Rightarrow> Some (None, w\<lparr>fcallbacks := (fcallbacks w)(f := fcallbacks w f @ [cb])\<rparr>)
      | Resolved v \<Rightarrow> call cb f w
      | Failed e \<Rightarrow> call cb f w)"

subsection \<open>parallel\<close>

text \<open>
  \<open>results[future] = value\<close> on an \<open>OrderedDict\<close>: an existing key keeps its position, a
  new key goes to the end.
\<close>

fun od_set :: "fid \<Rightarrow> val \<Rightarrow> (fid \<times> val) list \<Rightarrow> (fid \<times> val) list" where
  "od_set k v [] = [(k, v)]"
| "od_set k v (p # ps) = (if fst p = k then (k, v) # ps else p # od_set k v ps)"

text \<open>\<open>collections.OrderedDict(zip(futures, itertools.repeat(None)))\<close>\<close>

definition od_init :: "fid list \<Rightarrow> (fid \<times> val) list" where
  "od_init fs = foldl (\<lambda>d f. od_set f VNone d) [] fs"

text \<open>
  The closure \<open>done\<close> of \<open>parallel\<close>, lines 58 to 63. \<open>futures.remove(future)\<close> raises
  \<open>ValueError\<close> when the future is not in the list; \<open>future.result()\<close> raises the
  exception of a failed future.
\<close>

definition parallel_done :: "call \<Rightarrow> jid \<Rightarrow> fid \<Rightarrow> world \<Rightarrow> result" where
  "parallel_done call j future w =
     (if future \<notin> set (j_futures (joins w j)) then Some (Some ValueError, w)
      else
        let w1 = w\<lparr>joins := (joins w)(j := (joins w j)\<lparr>j_futures := remove1 future (j_futures (joins w j))\<rparr>)\<rparr>
        in case fstate w1 future of
             Pending \<Rightarrow> None
           | Failed e \<Rightarrow> Some (Some e, w1)
           | Resolved v \<Rightarrow>
               let w2 = w1\<lparr>joins := (joins w1)(j := (joins w1 j)\<lparr>j_results := od_set future v (j_results (joins w1 j))\<rparr>)\<rparr>
               in if j_futures (joins w2 j) = []
                  then set_result call (j_result_future (joins w2 j))
                         (VList (map snd (j_results (joins w2 j)))) w2
                  else Some (None, w2))"

text \<open>
  The loop \<open>for future in futures: future.add_done_callback(done)\<close>. The list iterator
  keeps an index \<open>i\<close> into the list \<open>futures\<close>, which \<open>done\<close> mutates: each step reads the
  list again. The list never grows, so the loop makes at most as many steps as the list
  is long when the loop starts; \<open>k\<close> counts the steps that are left.
\<close>

fun parallel_loop :: "call \<Rightarrow> jid \<Rightarrow> nat \<Rightarrow> nat \<Rightarrow> world \<Rightarrow> result" where
  "parallel_loop call j i 0 w =
     (if i < length (j_futures (joins w j)) then None else Some (None, w))"
| "parallel_loop call j i (Suc k) w =
     (if i < length (j_futures (joins w j))
      then case add_done_callback call (j_futures (joins w j) ! i) (Done j) w of
             None \<Rightarrow> None
           | Some (Some e, w') \<Rightarrow> Some (Some e, w')
           | Some (None, w') \<Rightarrow> parallel_loop call j (Suc i) k w'
      else Some (None, w))"

definition parallel :: "call \<Rightarrow> fid list \<Rightarrow> world \<Rightarrow> ((exn + fid) \<times> world) option" where
  "parallel call futures w =
     (let (result_future, w1) = Future w;
          j = njoins w1;
          w2 = w1\<lparr>joins := (joins w1)(j := \<lparr>j_result_future = result_future,
                                             j_results = od_init futures,
                                             j_futures = futures\<rparr>),
                 njoins := Suc j\<rparr>
      in case parallel_loop call j 0 (length futures) w2 of
           None \<Rightarrow> None
         | Some (Some e, w3) \<Rightarrow> Some (Inl e, w3)
         | Some (None, w3) \<Rightarrow> Some (Inr result_future, w3))"

subsection \<open>coroutine\<close>

text \<open>
  Running the body of a generator up to its next \<open>yield\<close>, \<open>return\<close> or uncaught
  exception: \<open>next(gen)\<close> on a fresh generator, and \<open>gen.send\<close> and \<open>gen.throw\<close> on a
  generator object. An exhausted generator raises \<open>StopIteration\<close> on \<open>send\<close> and the
  thrown exception on \<open>throw\<close>.
\<close>

definition resume :: "gen \<Rightarrow> outcome \<times> gen_obj" where
  "resume g = (case g of
       Yield y ks kt \<Rightarrow> (Yielded y, Suspended ks kt)
     | Return v \<Rightarrow> (StopIteration v, Finished)
     | Raise e \<Rightarrow> (Raised e, Finished))"

definition gen_send :: "gen_obj \<Rightarrow> val \<Rightarrow> outcome \<times> gen_obj" where
  "gen_send go v = (case go of
       Suspended ks kt \<Rightarrow> resume (ks v)
     | Finished \<Rightarrow> (StopIteration VNone, Finished))"

definition gen_throw :: "gen_obj \<Rightarrow> exn \<Rightarrow> outcome \<times> gen_obj" where
  "gen_throw go e = (case go of
       Suspended ks kt \<Rightarrow> resume (kt e)
     | Finished \<Rightarrow> (Raised e, Finished))"

text \<open>
  Lines 29 to 31 and, with the same text, lines 41 to 43: a yielded tuple is handed to
  \<open>parallel\<close>, and \<open>handle_future\<close> is added to the resulting object. An exception leaves
  the block at the statement that raises it.
\<close>

definition chain :: "call \<Rightarrow> cid \<Rightarrow> yielded \<Rightarrow> world \<Rightarrow> result" where
  "chain call c y w =
     (case y of
        YTuple fs \<Rightarrow>
          (case parallel call fs w of
             None \<Rightarrow> None
           | Some (Inl e, w') \<Rightarrow> Some (Some e, w')
           | Some (Inr jf, w') \<Rightarrow> add_done_callback call jf (HandleFuture c) w')
      | YFuture f \<Rightarrow> add_done_callback call f (HandleFuture c) w
      | YOther v \<Rightarrow> Some (Some AttributeError, w))"

text \<open>
  The \<open>try\<close> statement around them, with its handlers (lines 32 to 35 and 44 to 47):
  \<open>StopIteration\<close> sets the result of \<open>return_future\<close>, any other exception of the block
  sets its exception. What a handler raises leaves the function.
\<close>

definition settle_outcome :: "call \<Rightarrow> cid \<Rightarrow> outcome \<Rightarrow> world \<Rightarrow> result" where
  "settle_outcome call c out w =
     (case out of
        StopIteration v \<Rightarrow> set_result call (c_return_future (coros w c)) v w
      | Raised e \<Rightarrow> set_exception call (c_return_future (coros w c)) e w
      | Yielded y \<Rightarrow>
          (case chain call c y w of
             None \<Rightarrow> None
           | Some (None, w') \<Rightarrow> Some (None, w')
           | Some (Some e, w') \<Rightarrow> set_exception call (c_return_future (coros w' c)) e w'))"

text \<open>
  The closure \<open>handle_future\<close>, lines 22 to 35. On a pending future \<open>exception()\<close> does not
  return.
\<close>

definition handle_future :: "call \<Rightarrow> cid \<Rightarrow> fid \<Rightarrow> world \<Rightarrow> result" where
  "handle_future call c future w =
     (case fstate w future of
        Pending \<Rightarrow> None
      | Failed e \<Rightarrow>
          (let (out, go) = gen_throw (c_gen (coros w c)) e;
               w1 = w\<lparr>coros := (coros w)(c := (coros w c)\<lparr>c_gen := go\<rparr>)\<rparr>
           in settle_outcome call c out w1)
      | Resolved v \<Rightarrow>
          (let (out, go) = gen_send (c_gen (coros w c)) v;
               w1 = w\<lparr>coros := (coros w)(c := (coros w c)\<lparr>c_gen := go\<rparr>)\<rparr>
           in settle_outcome call c out w1))"

text \<open>
  The function \<open>wrapper\<close>, lines 19 to 49. \<open>called\<close> is what the call of the wrapped
  function at line 38 does; the call happens after \<open>return_future\<close> was created and
  before the \<open>try\<close>, so what it raises leaves \<open>wrapper\<close>. \<open>wrapper_try\<close> is the \<open>try\<close>
  statement of lines 39 to 47 with the \<open>return\<close> of line 49, given what \<open>next(gen)\<close> does;
  on a value that is no iterator \<open>next\<close> raises \<open>TypeError\<close>.
\<close>

definition wrapper_try :: "call \<Rightarrow> fid \<Rightarrow> outcome \<times> gen_obj \<Rightarrow> world
    \<Rightarrow> ((exn + fid) \<times> world) option" where
  "wrapper_try call return_future first w1 =
     (let c = ncoros w1;
          (out, go) = first;
          w2 = w1\<lparr>coros := (coros w1)(c := \<lparr>c_gen = go, c_return_future = return_future\<rparr>),
                 ncoros := Suc c\<rparr>
      in case settle_outcome call c out w2 of
           None \<Rightarrow> None
         | Some (Some e, w3) \<Rightarrow> Some (Inl e, w3)
         | Some (None, w3) \<Rightarrow> Some (Inr return_future, w3))"

definition wrapper :: "call \<Rightarrow> called \<Rightarrow> world \<Rightarrow> ((exn + fid) \<times> world) option" where
  "wrapper call called w =
     (let (return_future, w1) = Future w
      in case called of
           Raising e \<Rightarrow> Some (Inl e, w1)
         | Generator g \<Rightarrow> wrapper_try call return_future (resume g) w1
         | Value v \<Rightarrow> wrapper_try call return_future (Raised TypeError, Finished) w1)"

subsection \<open>Calling a callback\<close>

text \<open>
  Callbacks call \<open>set_result\<close>, which calls callbacks. \<open>invoke n\<close> calls a callback with
  at most \<open>n\<close> nested calls of callbacks; where more would be needed it does not return.
\<close>

primrec invoke :: "nat \<Rightarrow> call" where
  "invoke 0 = (\<lambda>cb f w. None)"
| "invoke (Suc n) = (\<lambda>cb f w. case cb of
       Done j \<Rightarrow> parallel_done (invoke n) j f w
     | HandleFuture c \<Rightarrow> handle_future (invoke n) c f w)"

text \<open>The store in which nothing has been allocated.\<close>

definition empty_world :: world where
  "empty_world = \<lparr>fstate = (\<lambda>_. Pending), fcallbacks = (\<lambda>_. []), nfutures = 0,
     joins = (\<lambda>_. \<lparr>j_result_future = 0, j_results = [], j_futures = []\<rparr>), njoins = 0,
     coros = (\<lambda>_. \<lparr>c_gen = Finished, c_return_future = 0\<rparr>), ncoros = 0,
     escaped = []\<rparr>"

subsection \<open>EventLoop\<close>

type_synonym fd = int
type_synonym handler = nat
type_synonym task = nat

text \<open>The keys \<open>'read'\<close>, \<open>'write'\<close> and \<open>'error'\<close> of \<open>EVENT_MAPPING\<close>.\<close>

datatype event = Ev_read | Ev_write | Ev_error

text \<open>
  What the loop can be asked to call later: \<open>functools.partial(callback, *args,
  **kwargs)\<close> of \<open>_do_schedule_in\<close>, the partial application of \<open>_periodic_handler\<close> of
  \<open>_do_schedule_periodically\<close>, and the two partial applications that
  \<open>schedule_in\<close> and \<open>schedule_periodically\<close> pass to \<open>schedule\<close>. A \<open>task\<close> names the user's
  callback together with its arguments.
\<close>

datatype timer =
    Call task
  | Periodic_handler int task
  | Do_schedule_in int task
  | Do_schedule_periodically int task

datatype task_result = Returns val | Raises exn

text \<open>
  The object: the class attribute \<open>EVENT_MAPPING\<close> (the three constants of tornado's
  \<open>IOLoop\<close> are not part of this repository, so the mapping is a field that every
  property quantifies over), the attributes \<open>running\<close>, \<open>run_thread\<close> and \<open>handlers\<close>, and the
  wrapped \<open>io_loop\<close>.

  Modelled from the spec: \<open>tornado.ioloop.IOLoop\<close> is not part of this repository. Of
  the \<open>io_loop\<close> the fields keep what sections 3 and 4.4 of the specification name: per
  descriptor the interest mask last passed to the multiplexer (\<open>io_handlers\<close>), the
  pending timers with their handles and deadlines (\<open>io_timeouts\<close>), the callbacks to run
  as soon as possible (\<open>io_callbacks\<close>) and the loop's clock (\<open>io_time\<close>).

  \<open>invoked\<close> records the calls of descriptor callbacks, \<open>calls\<close> counts the calls of
  each task, and \<open>io_errors\<close> records the exceptions that left a timer callback.
\<close>

record event_loop =
  EVENT_MAPPING :: "event \<Rightarrow> int"
  running :: bool
  run_thread :: "nat option"
  handlers :: "fd \<rightharpoonup> (event \<Rightarrow> handler list)"
  io_handlers :: "fd \<rightharpoonup> int"
  io_timeouts :: "(nat \<times> int \<times> timer) list"
  io_next_handle :: nat
  io_callbacks :: "timer list"
  io_time :: int
  io_errors :: "exn list"
  invoked :: "(handler \<times> fd) list"
  calls :: "task \<Rightarrow> nat"

text \<open>The order in which the items of \<open>EVENT_MAPPING\<close> are visited.\<close>

definition event_keys :: "event list" where
  "event_keys = [Ev_read, Ev_write, Ev_error]"

definition register :: "fd \<Rightarrow> event_loop \<Rightarrow> event_loop" where
  "register fd s = s\<lparr>handlers := (handlers s)(fd \<mapsto> (\<lambda>key. []))\<rparr>"

definition unregister :: "fd \<Rightarrow> event_loop \<Rightarrow> exn + event_loop" where
  "unregister fd s =
     (case handlers s fd of
        None \<Rightarrow> Inl KeyError
      | Some hs \<Rightarrow> Inr (s\<lparr>handlers := (handlers s)(fd := None)\<rparr>))"

text \<open>
  \<open>_update_events\<close>, lines 152 to 163: the handler of the descriptor is removed from
  the \<open>io_loop\<close> (a \<open>KeyError\<close> is passed over), the mask is computed from the three
  lists, and the handler is added again with that mask.
\<close>

definition update_events :: "fd \<Rightarrow> event_loop \<Rightarrow> exn + event_loop" where
  "update_events fd s =
     (let s1 = s\<lparr>io_handlers := (io_handlers s)(fd := None)\<rparr>
      in case handlers s1 fd of
           None \<Rightarrow> Inl KeyError
         | Some hs \<Rightarrow>
             let events = foldl (\<lambda>events event.
                                   if hs event \<noteq> [] then events OR EVENT_MAPPING s1 event
                                   else events) 0 event_keys
             in Inr (s1\<lparr>io_handlers := (io_handlers s1)(fd \<mapsto> events)\<rparr>))"

definition on_read :: "fd \<Rightarrow> handler \<Rightarrow> event_loop \<Rightarrow> exn + event_loop" where
  "on_read fd callback s =
     (case handlers s fd of
        None \<Rightarrow> Inl KeyError
      | Some hs \<Rightarrow>
          update_events fd (s\<lparr>handlers := (handlers s)(fd \<mapsto> hs(Ev_read := hs Ev_read @ [callback]))\<rparr>))"

definition on_write :: "fd \<Rightarrow> handler \<Rightarrow> event_loop \<Rightarrow> exn + event_loop" where
  "on_write fd callback s =
     (case handlers s fd of
        None \<Rightarrow> Inl KeyError
      | Some hs \<Rightarrow>
          update_events fd (s\<lparr>handlers := (handlers s)(fd \<mapsto> hs(Ev_write := hs Ev_write @ [callback]))\<rparr>))"

definition on_error :: "fd \<Rightarrow> handler \<Rightarrow> event_loop \<Rightarrow> exn + event_loop" where
  "on_error fd callback s =
     (case handlers s fd of
        None \<Rightarrow> Inl KeyError
      | Some hs \<Rightarrow>
          update_events fd (s\<lparr>handlers := (handlers s)(fd \<mapsto> hs(Ev_error := hs Ev_error @ [callback]))\<rparr>))"

text \<open>\<open>list.remove\<close> raises \<open>ValueError\<close> when the callback is not in the list.\<close>

definition off_read :: "fd \<Rightarrow> handler \<Rightarrow> event_loop \<Rightarrow> exn + event_loop" where
  "off_read fd callback s =
     (case handlers s fd of
        None \<Rightarrow> Inl KeyError
      | Some hs \<Rightarrow>
          if callback \<notin> set (hs Ev_read) then Inl ValueError
          else update_events fd
                 (s\<lparr>handlers := (handlers s)(fd \<mapsto> hs(Ev_read := remove1 callback (hs Ev_read)))\<rparr>))"

definition off_write :: "fd \<Rightarrow> handler \<Rightarrow> event_loop \<Rightarrow> exn + event_loop" where
  "off_write fd callback s =
     (case handlers s fd of
        None \<Rightarrow> Inl KeyError
      | Some hs \<Rightarrow>
          if callback \<notin> set (hs Ev_write) then Inl ValueError
          else update_events fd
                 (s\<lparr>handlers := (handlers s)(fd \<mapsto> hs(Ev_write := remove1 callback (hs Ev_write)))\<rparr>))"

definition off_error :: "fd \<Rightarrow> handler \<Rightarrow> event_loop \<Rightarrow> exn + event_loop" where
  "off_error fd callback s =
     (case handlers s fd of
        None \<Rightarrow> Inl KeyError
      | Some hs \<Rightarrow>
          if callback \<notin> set (hs Ev_error) then Inl ValueError
          else update_events fd
                 (s\<lparr>handlers := (handlers s)(fd \<mapsto> hs(Ev_error := remove1 callback (hs Ev_error)))\<rparr>))"

definition handles_read :: "fd \<Rightarrow> handler \<Rightarrow> event_loop \<Rightarrow> exn + bool" where
  "handles_read fd callback s =
     (case handlers s fd of None \<Rightarrow> Inl KeyError | Some hs \<Rightarrow> Inr (callback \<in> set (hs Ev_read)))"

definition handles_write :: "fd \<Rightarrow> handler \<Rightarrow> event_loop \<Rightarrow> exn + bool" where
  "handles_write fd callback s =
     (case handlers s fd of None \<Rightarrow> Inl KeyError | Some hs \<Rightarrow> Inr (callback \<in> set (hs Ev_write)))"

definition handles_error :: "fd \<Rightarrow> handler \<Rightarrow> event_loop \<Rightarrow> exn + bool" where
  "handles_error fd callback s =
     (case handlers s fd of None \<Rightarrow> Inl KeyError | Some hs \<Rightarrow> Inr (callback \<in> set (hs Ev_error)))"

text \<open>
  \<open>_do_on_event\<close>, lines 165 to 172. \<open>hb h fd\<close> says whether the descriptor callback \<open>h\<close>
  raises when called with \<open>fd\<close>; an exception leaves both loops. Each call is recorded
  in \<open>invoked\<close>.
\<close>

fun call_handlers :: "(handler \<Rightarrow> fd \<Rightarrow> exn option) \<Rightarrow> handler list \<Rightarrow> fd \<Rightarrow> event_loop
    \<Rightarrow> exn option \<times> event_loop" where
  "call_handlers hb [] fd s = (None, s)"
| "call_handlers hb (h # hs) fd s =
     (let s1 = s\<lparr>invoked := invoked s @ [(h, fd)]\<rparr>
      in case hb h fd of
           Some e \<Rightarrow> (Some e, s1)
         | None \<Rightarrow> call_handlers hb hs fd s1)"

fun dispatch :: "(handler \<Rightarrow> fd \<Rightarrow> exn option) \<Rightarrow> event list \<Rightarrow> fd \<Rightarrow> int \<Rightarrow> event_loop
    \<Rightarrow> exn option \<times> event_loop" where
  "dispatch hb [] fd events s = (None, s)"
| "dispatch hb (event # rest) fd events s =
     (if events AND EVENT_MAPPING s event \<noteq> 0
      then case handlers s fd of
             None \<Rightarrow> (Some KeyError, s)
           | Some hs \<Rightarrow>
               (case call_handlers hb (hs event) fd s of
                  (Some e, s') \<Rightarrow> (Some e, s')
                | (None, s') \<Rightarrow> dispatch hb rest fd events s')
      else dispatch hb rest fd events s)"

definition do_on_event :: "(handler \<Rightarrow> fd \<Rightarrow> exn option) \<Rightarrow> fd \<Rightarrow> int \<Rightarrow> event_loop
    \<Rightarrow> exn option \<times> event_loop" where
  "do_on_event hb fd events s =
     (if fd \<notin> dom (handlers s) then (None, s)
      else dispatch hb event_keys fd events s)"

text \<open>
  Timers. \<open>add_timeout\<close> with a \<open>timedelta\<close> sets the deadline that far after the
  loop's clock and returns a handle; \<open>remove_timeout\<close> drops the timer with that handle.
\<close>

definition add_timeout :: "int \<Rightarrow> timer \<Rightarrow> event_loop \<Rightarrow> nat \<times> event_loop" where
  "add_timeout delta t s =
     (io_next_handle s,
      s\<lparr>io_timeouts := io_timeouts s @ [(io_next_handle s, io_time s + delta, t)],
        io_next_handle := Suc (io_next_handle s)\<rparr>)"

definition remove_timeout :: "nat \<Rightarrow> event_loop \<Rightarrow> event_loop" where
  "remove_timeout handle s = s\<lparr>io_timeouts := filter (\<lambda>x. fst x \<noteq> handle) (io_timeouts s)\<rparr>"

definition schedule :: "timer \<Rightarrow> event_loop \<Rightarrow> event_loop" where
  "schedule t s = s\<lparr>io_callbacks := io_callbacks s @ [t]\<rparr>"

definition unschedule :: "nat \<Rightarrow> event_loop \<Rightarrow> event_loop" where
  "unschedule handle s = remove_timeout handle s"

definition do_schedule_in :: "int \<Rightarrow> task \<Rightarrow> event_loop \<Rightarrow> nat \<times> event_loop" where
  "do_schedule_in when' callback s = add_timeout when' (Call callback) s"

definition do_schedule_periodically :: "int \<Rightarrow> task \<Rightarrow> event_loop \<Rightarrow> nat \<times> event_loop" where
  "do_schedule_periodically interval callback s =
     add_timeout interval (Periodic_handler interval callback) s"

text \<open>
  \<open>schedule_in\<close> and \<open>schedule_periodically\<close>: \<open>current_thread\<close> is the identifier of the
  calling thread. From another thread than the loop's the scheduling is itself
  scheduled and nothing is returned.
\<close>

definition schedule_in :: "nat \<Rightarrow> int \<Rightarrow> task \<Rightarrow> event_loop \<Rightarrow> nat option \<times> event_loop" where
  "schedule_in current_thread when' callback s =
     (if run_thread s \<noteq> Some current_thread
      then (None, schedule (Do_schedule_in when' callback) s)
      else let (handle, s') = do_schedule_in when' callback s in (Some handle, s'))"

definition schedule_periodically :: "nat \<Rightarrow> int \<Rightarrow> task \<Rightarrow> event_loop \<Rightarrow> nat option \<times> event_loop" where
  "schedule_periodically current_thread interval callback s =
     (if run_thread s \<noteq> Some current_thread
      then (None, schedule (Do_schedule_periodically interval callback) s)
      else let (handle, s') = do_schedule_periodically interval callback s in (Some handle, s'))"

text \<open>
  Calling the user's callback: \<open>tb callback n\<close> is what the call returns or raises when
  the callback has been called \<open>n\<close> times before.
\<close>

definition call_task :: "(task \<Rightarrow> nat \<Rightarrow> task_result) \<Rightarrow> task \<Rightarrow> event_loop
    \<Rightarrow> task_result \<times> event_loop" where
  "call_task tb callback s =
     (tb callback (calls s callback), s\<lparr>calls := (calls s)(callback := Suc (calls s callback))\<rparr>)"

text \<open>Python's \<open>result == False\<close>: true of \<open>False\<close> and of the integer zero.\<close>

fun eq_False :: "val \<Rightarrow> bool" where
  "eq_False (VBool b) = (\<not> b)"
| "eq_False (VInt i) = (i = 0)"
| "eq_False v = False"

text \<open>Python's truth value of an object.\<close>

fun truthy :: "val \<Rightarrow> bool" where
  "truthy VNone = False"
| "truthy (VBool b) = b"
| "truthy (VInt i) = (i \<noteq> 0)"
| "truthy (VStr s) = (s \<noteq> [])"
| "truthy (VList vs) = (vs \<noteq> [])"

text \<open>
  \<open>_periodic_handler\<close>, lines 222 to 231: the next call is scheduled first; \<open>result\<close>
  starts as \<open>False\<close> and stays so when the callback raises; the \<open>finally\<close> clause removes
  the timer just added when \<open>result == False\<close>, and the exception continues.
\<close>

definition periodic_handler :: "(task \<Rightarrow> nat \<Rightarrow> task_result) \<Rightarrow> int \<Rightarrow> task \<Rightarrow> event_loop
    \<Rightarrow> exn option \<times> event_loop" where
  "periodic_handler tb interval callback s =
     (let (handle, s1) = do_schedule_periodically interval callback s;
          (r, s2) = call_task tb callback s1
      in case r of
           Returns result \<Rightarrow> (None, if eq_False result then remove_timeout handle s2 else s2)
         | Raises e \<Rightarrow> (Some e, remove_timeout handle s2))"

text \<open>What the loop does when it runs one of the things it was asked to call.\<close>

definition run_timer :: "(task \<Rightarrow> nat \<Rightarrow> task_result) \<Rightarrow> timer \<Rightarrow> event_loop
    \<Rightarrow> exn option \<times> event_loop" where
  "run_timer tb t s =
     (case t of
        Call callback \<Rightarrow>
          (case call_task tb callback s of
             (Returns v, s') \<Rightarrow> (None, s')
           | (Raises e, s') \<Rightarrow> (Some e, s'))
      | Periodic_handler interval callback \<Rightarrow> periodic_handler tb interval callback s
      | Do_schedule_in when' callback \<Rightarrow> (None, snd (do_schedule_in when' callback s))
      | Do_schedule_periodically interval callback \<Rightarrow>
          (None, snd (do_schedule_periodically interval callback s)))"

definition log_error :: "exn option \<times> event_loop \<Rightarrow> event_loop" where
  "log_error r = (case r of (None, s) \<Rightarrow> s | (Some e, s) \<Rightarrow> s\<lparr>io_errors := io_errors s @ [e]\<rparr>)"

text \<open>
  The pending timer that is due first, the earlier added one among equal deadlines.
\<close>

fun earliest :: "(nat \<times> int \<times> timer) list \<Rightarrow> (nat \<times> int \<times> timer) option" where
  "earliest [] = None"
| "earliest (x # xs) =
     (case earliest xs of
        None \<Rightarrow> Some x
      | Some y \<Rightarrow> if fst (snd y) < fst (snd x) then Some y else Some x)"

text \<open>
  One firing of the loop: the callbacks to run as soon as possible come first, one
  at a time; otherwise the clock moves to the deadline of the timer that is due first,
  the timer leaves the pending ones and its callback runs. An exception that leaves
  the callback is recorded and the loop goes on.
\<close>

definition fire :: "(task \<Rightarrow> nat \<Rightarrow> task_result) \<Rightarrow> event_loop \<Rightarrow> event_loop" where
  "fire tb s =
     (case io_callbacks s of
        t # ts \<Rightarrow> log_error (run_timer tb t (s\<lparr>io_callbacks := ts\<rparr>))
      | [] \<Rightarrow>
          (case earliest (io_timeouts s) of
             None \<Rightarrow> s
           | Some (handle, deadline, t) \<Rightarrow>
               log_error (run_timer tb t
                 (s\<lparr>io_timeouts := filter (\<lambda>x. fst x \<noteq> handle) (io_timeouts s),
                    io_time := max (io_time s) deadline\<rparr>))))"

fun fire_n :: "(task \<Rightarrow> nat \<Rightarrow> task_result) \<Rightarrow> nat \<Rightarrow> event_loop \<Rightarrow> event_loop" where
  "fire_n tb 0 s = s"
| "fire_n tb (Suc n) s = fire_n tb n (fire tb s)"

text \<open>A loop right after \<open>__init__\<close>, with the given \<open>EVENT_MAPPING\<close>.\<close>

definition new_loop :: "(event \<Rightarrow> int) \<Rightarrow> event_loop" where
  "new_loop em = \<lparr>EVENT_MAPPING = em, running = False, run_thread = None,
     handlers = Map.empty, io_handlers = Map.empty, io_timeouts = [], io_next_handle = 0,
     io_callbacks = [], io_time = 0, io_errors = [], invoked = [], calls = (\<lambda>_. 0)\<rparr>"

text \<open>The values of \<open>READ\<close>, \<open>WRITE\<close> and \<open>ERROR\<close> in tornado's \<open>IOLoop\<close>, for examples.\<close>

definition tornado_mapping :: "event \<Rightarrow> int" where
  "tornado_mapping ev = (case ev of Ev_read \<Rightarrow> 1 | Ev_write \<Rightarrow> 4 | Ev_error \<Rightarrow> 24)"

section \<open>Notions used to state the properties\<close>

subsection \<open>Settlement of futures from outside\<close>

text \<open>
  A sequence of settlements made by the producers of the futures, in the given
  order. What \<open>set_result\<close> or \<open>set_exception\<close> raises is the producer's affair.
\<close>

fun settle_each :: "call \<Rightarrow> (fid \<times> fut_state) list \<Rightarrow> world \<Rightarrow> world option" where
  "settle_each call [] w = Some w"
| "settle_each call (ev # evs) w =
     (case settle call (fst ev) (snd ev) w of
        None \<Rightarrow> None
      | Some (x, w') \<Rightarrow> settle_each call evs w')"

text \<open>
  The inputs of a \<open>parallel\<close> call that are allocated, pending and have no callback
  yet.
\<close>

definition pending_inputs :: "world \<Rightarrow> fid list \<Rightarrow> bool" where
  "pending_inputs w fs =
     (\<forall>f\<in>set fs. f < nfutures w \<and> fstate w f = Pending \<and> fcallbacks w f = [])"

text \<open>
  Settlements of inputs of a \<open>parallel\<close> call: every future at most once, each with a
  result or an exception.
\<close>

definition valid_events :: "fid list \<Rightarrow> (fid \<times> fut_state) list \<Rightarrow> bool" where
  "valid_events fs evs =
     (distinct (map fst evs) \<and> (\<forall>ev\<in>set evs. fst ev \<in> set fs \<and> snd ev \<noteq> Pending))"

text \<open>
  The exceptions of the failed inputs, in the order of settlement, once for each
  callback \<open>done\<close> that was added to the failed future.
\<close>

definition escapes :: "fid list \<Rightarrow> (fid \<times> fut_state) list \<Rightarrow> exn list" where
  "escapes fs evs = concat (map (\<lambda>ev. case snd ev of
       Failed e \<Rightarrow> replicate (count_list fs (fst ev)) e
     | Resolved v \<Rightarrow> []
     | Pending \<Rightarrow> []) evs)"

text \<open>
  The state of each future after a sequence of settlements.
\<close>

definition record_events :: "(fid \<times> fut_state) list \<Rightarrow> (fid \<Rightarrow> fut_state) \<Rightarrow> fid \<Rightarrow> fut_state" where
  "record_events evs st = fold (\<lambda>ev st. st(fst ev := snd ev)) evs st"

text \<open>
  The entry of the result list for an input: its result, or \<open>None\<close> as long as none was
  stored.
\<close>

definition result_of :: "fut_state \<Rightarrow> val" where
  "result_of st = (case st of Resolved v \<Rightarrow> v | Failed e \<Rightarrow> VNone | Pending \<Rightarrow> VNone)"

text \<open>
  The distinct elements of a list in the order of their first occurrences: the
  keys of an \<open>OrderedDict\<close> built from the list.
\<close>

definition first_occurrences :: "fid list \<Rightarrow> fid list" where
  "first_occurrences fs = rev (remdups (rev fs))"

text \<open>
  What holds of the join \<open>j\<close> with result future \<open>rf\<close> over the inputs \<open>fs\<close> while the
  inputs are settled; \<open>st\<close> gives the state of each input.
\<close>

definition join_inv :: "world \<Rightarrow> jid \<Rightarrow> fid \<Rightarrow> fid list \<Rightarrow> (fid \<Rightarrow> fut_state) \<Rightarrow> bool" where
  "join_inv w j rf fs st =
     (j_result_future (joins w j) = rf \<and> rf \<notin> set fs \<and> fcallbacks w rf = [] \<and>
      j_futures (joins w j) = filter (\<lambda>f. st f = Pending) fs \<and>
      j_results (joins w j) = map (\<lambda>f. (f, result_of (st f))) (first_occurrences fs) \<and>
      (\<forall>f\<in>set fs. fstate w f = st f) \<and>
      (\<forall>f\<in>set fs. st f = Pending \<longrightarrow> fcallbacks w f = replicate (count_list fs f) (Done j)) \<and>
      (\<forall>e. fstate w rf \<noteq> Failed e) \<and>
      ((\<exists>f\<in>set fs. st f = Pending) \<longrightarrow> fstate w rf = Pending))"

text \<open>
  After a tuple was yielded by the coroutine \<open>c\<close>: there is a join \<open>j\<close> over the elements
  with the pending result future \<open>jf\<close>, \<open>handle_future\<close> of \<open>c\<close> is the only callback of
  \<open>jf\<close>, and the elements got the callback \<open>done\<close> of the join and nothing else.
\<close>

definition awaits_join :: "world \<Rightarrow> world \<Rightarrow> cid \<Rightarrow> fid list \<Rightarrow> fid \<Rightarrow> jid \<Rightarrow> bool" where
  "awaits_join w w1 c fs jf j =
     (j_result_future (joins w1 j) = jf \<and> j_futures (joins w1 j) = fs \<and>
      fstate w1 jf = Pending \<and> fcallbacks w1 jf = [HandleFuture c] \<and>
      (\<forall>f\<in>set fs. fcallbacks w1 f = fcallbacks w f @ replicate (count_list fs f) (Done j)))"

subsection \<open>Generators driven by a script\<close>

text \<open>
  The generator after it was resumed for one settled future: it must be
  suspended at a \<open>yield\<close> of that future; the result is sent, the exception is thrown.
\<close>

definition resumed :: "gen \<Rightarrow> fid \<times> fut_state \<Rightarrow> gen option" where
  "resumed g ev =
     (case g of
        Yield y ks kt \<Rightarrow>
          (case y of
             YFuture f \<Rightarrow>
               if f = fst ev
               then (case snd ev of
                       Resolved v \<Rightarrow> Some (ks v)
                     | Failed e \<Rightarrow> Some (kt e)
                     | Pending \<Rightarrow> None)
               else None
           | YTuple fs \<Rightarrow> None
           | YOther v \<Rightarrow> None)
      | Return v \<Rightarrow> None
      | Raise e \<Rightarrow> None)"

text \<open>
  The generator after it was resumed once for each settlement of a script, in order.
\<close>

fun follows :: "gen \<Rightarrow> (fid \<times> fut_state) list \<Rightarrow> gen option" where
  "follows g [] = Some g"
| "follows g (ev # evs) = (case resumed g ev of None \<Rightarrow> None | Some g' \<Rightarrow> follows g' evs)"

text \<open>
  The state in which a generator that has ended leaves the outer future.
\<close>

definition final_state :: "gen \<Rightarrow> fut_state" where
  "final_state g = (case g of Yield y ks kt \<Rightarrow> Pending | Return v \<Rightarrow> Resolved v | Raise e \<Rightarrow> Failed e)"

subsection \<open>The interest mask and periodic callbacks\<close>

text \<open>
  The union, over the three kinds of event, of the flag of each kind whose list of
  callbacks is not empty.
\<close>

definition interest_union :: "(event \<Rightarrow> int) \<Rightarrow> (event \<Rightarrow> handler list) \<Rightarrow> int" where
  "interest_union em hs =
     (if hs Ev_read \<noteq> [] then em Ev_read else 0) OR
     (if hs Ev_write \<noteq> [] then em Ev_write else 0) OR
     (if hs Ev_error \<noteq> [] then em Ev_error else 0)"

text \<open>
  The mask registered with the \<open>io_loop\<close> for a descriptor is that union.
\<close>

definition mask_applied :: "event_loop \<Rightarrow> fd \<Rightarrow> bool" where
  "mask_applied s fd =
     (case handlers s fd of
        None \<Rightarrow> False
      | Some hs \<Rightarrow> io_handlers s fd = Some (interest_union (EVENT_MAPPING s) hs))"

text \<open>
  A call of a periodic callback after which it is not called again: it returned
  something equal to \<open>False\<close>, or it raised.
\<close>

definition stops :: "task_result \<Rightarrow> bool" where
  "stops r = (case r of Returns v \<Rightarrow> eq_False v | Raises e \<Rightarrow> True)"

text \<open>
  A loop whose only pending work is one periodic timer, due one interval after the
  loop's clock.
\<close>

definition single_periodic :: "event_loop \<Rightarrow> int \<Rightarrow> task \<Rightarrow> bool" where
  "single_periodic s interval task =
     (io_callbacks s = [] \<and>
      (\<exists>h. io_timeouts s = [(h, io_time s + interval, Periodic_handler interval task)]))"

subsection \<open>Examples\<close>

text \<open>
  Two futures that are resolved, one that is resolved beside one that is pending, and
  two that are pending, in an otherwise empty store; and the store after
  \<open>parallel\<close> was called in the second one on its two futures.
\<close>

definition two_resolved :: world where
  "two_resolved = empty_world\<lparr>fstate := (\<lambda>_. Pending)(0 := Resolved (VInt 10), 1 := Resolved (VInt 20)),
     nfutures := 2\<rparr>"

definition one_resolved :: world where
  "one_resolved = empty_world\<lparr>fstate := (\<lambda>_. Pending)(0 := Resolved (VInt 10)), nfutures := 2\<rparr>"

definition two_pending :: world where
  "two_pending = empty_world\<lparr>nfutures := 2\<rparr>"

definition joined_one_resolved :: world where
  "joined_one_resolved = snd (the (parallel (invoke (Suc 0)) [0, 1] one_resolved))"

text \<open>
  A generator that yields the future \<open>0\<close> and returns what it was sent plus one, and
  one that yields the tuple of the futures \<open>0\<close> and \<open>1\<close>.
\<close>

definition plus_one :: gen where
  "plus_one = Yield (YFuture 0)
     (\<lambda>v. Return (case v of VInt i \<Rightarrow> VInt (i + 1) | VNone \<Rightarrow> VNone | VBool b \<Rightarrow> VNone
                             | VStr s \<Rightarrow> VNone | VList vs \<Rightarrow> VNone))
     (\<lambda>e. Raise e)"

definition wait_both :: gen where
  "wait_both = Yield (YTuple [0, 1]) (\<lambda>v. Return v) (\<lambda>e. Raise e)"

text \<open>
  A periodic callback that always returns \<open>None\<close>, and one that returns \<open>False\<close> on its
  third call.
\<close>

definition always_none :: "task \<Rightarrow> nat \<Rightarrow> task_result" where
  "always_none task n = Returns VNone"

definition false_on_third :: "task \<Rightarrow> nat \<Rightarrow> task_result" where
  "false_on_third task n = (if n = 2 then Returns (VBool False) else Returns (VBool True))"

text \<open>
  A loop that runs in thread \<open>7\<close>, and a loop with descriptor \<open>3\<close> registered.
\<close>

definition running_loop :: event_loop where
  "running_loop = (new_loop tornado_mapping)\<lparr>run_thread := Some 7\<rparr>"

definition registered_loop :: event_loop where
  "registered_loop = register 3 (new_loop tornado_mapping)"

section \<open>Properties of parallel\<close>

subsection \<open>Lists and ordered dictionaries\<close>

lemma remove1_single: "count_list xs x = Suc 0 \<Longrightarrow> remove1 x xs = removeAll x xs"
  by (induction xs) (auto simp: count_list_0_iff split: if_splits)

lemma count_list_remove1: "count_list (remove1 x xs) x = count_list xs x - 1"
  by (induction xs) (auto)

lemma removeAll_remove1: "removeAll x (remove1 x xs) = removeAll x xs"
  by (induction xs) auto

lemma count_pos_mem: "count_list xs x = Suc m \<Longrightarrow> x \<in> set xs"
  by (metis count_list_0_iff nat.distinct(1))

lemma count_list_Suc: "f \<in> set fs \<Longrightarrow> \<exists>m. count_list fs f = Suc m"
  by (metis count_list_0_iff not0_implies_Suc)

lemma count_list_filter: "count_list (filter P xs) x = (if P x then count_list xs x else 0)"
  by (induction xs) auto

lemma removeAll_filter_pending:
  "s \<noteq> Pending \<Longrightarrow>
   removeAll f (filter (\<lambda>g. st g = Pending) fs) = filter (\<lambda>g. (st(f := s)) g = Pending) fs"
  by (induction fs) auto

lemma od_set_idem: "od_set k v (od_set k v d) = od_set k v d"
  by (induction d) auto

lemma first_occurrences_set [simp]: "set (first_occurrences fs) = set fs"
  by (simp add: first_occurrences_def)

lemma first_occurrences_distinct [simp]: "distinct (first_occurrences fs)"
  by (simp add: first_occurrences_def)

lemma first_occurrences_id: "distinct fs \<Longrightarrow> first_occurrences fs = fs"
  by (simp add: first_occurrences_def distinct_remdups_id)

lemma first_occurrences_snoc:
  "first_occurrences (fs @ [x]) = (if x \<in> set fs then first_occurrences fs else first_occurrences fs @ [x])"
  by (simp add: first_occurrences_def)

lemma first_occurrences_length: "length (first_occurrences fs) = card (set fs)"
  by (metis distinct_card first_occurrences_distinct first_occurrences_set)

lemma first_occurrences_shorter: "\<not> distinct fs \<Longrightarrow> length (first_occurrences fs) < length fs"
  by (metis card_distinct card_length first_occurrences_length le_neq_implies_less)

lemma od_set_map:
  "distinct ks \<Longrightarrow> k \<in> set ks \<Longrightarrow>
   od_set k v (map (\<lambda>g. (g, h g)) ks) = map (\<lambda>g. (g, (h(k := v)) g)) ks"
  by (induction ks) auto

lemma od_set_new:
  "k \<notin> set ks \<Longrightarrow> od_set k v (map (\<lambda>g. (g, h g)) ks) = map (\<lambda>g. (g, h g)) ks @ [(k, v)]"
  by (induction ks) auto

lemma od_set_same:
  "k \<in> set ks \<Longrightarrow> od_set k c (map (\<lambda>g. (g, c)) ks) = map (\<lambda>g. (g, c)) ks"
  by (induction ks) auto

lemma od_init_keys: "od_init fs = map (\<lambda>f. (f, VNone)) (first_occurrences fs)"
proof (induction fs rule: rev_induct)
  case Nil
  show ?case by (simp add: od_init_def first_occurrences_def)
next
  case (snoc x xs)
  have "od_init (xs @ [x]) = od_set x VNone (od_init xs)" by (simp add: od_init_def)
  also have "\<dots> = od_set x VNone (map (\<lambda>f. (f, VNone)) (first_occurrences xs))"
    by (simp only: snoc.IH)
  also have "\<dots> = map (\<lambda>f. (f, VNone)) (first_occurrences (xs @ [x]))"
    by (simp add: first_occurrences_snoc od_set_same od_set_new)
  finally show ?case .
qed

subsection \<open>The call with no futures\<close>

lemma parallel_loop_empty:
  "j_futures (joins w j) = [] \<Longrightarrow> parallel_loop call j i k w = Some (None, w)"
  by (cases k) simp_all

text \<open>
  C2: \<open>parallel()\<close> with no futures is claimed to return a future that is already
  resolved to the empty list. The loop attaches \<open>done\<close> to nothing and \<open>done\<close> is the only
  place that sets the result: the call returns a fresh future that is pending, and no
  callback of the store refers to it.
\<close>

theorem parallel_no_futures_pending:
  "parallel call [] w =
     Some (Inr (nfutures w),
           w\<lparr>fstate := (fstate w)(nfutures w := Pending),
             fcallbacks := (fcallbacks w)(nfutures w := []),
             nfutures := Suc (nfutures w),
             joins := (joins w)(njoins w := \<lparr>j_result_future = nfutures w, j_results = [], j_futures = []\<rparr>),
             njoins := Suc (njoins w)\<rparr>)"
  by (simp add: parallel_def Future_def od_init_def parallel_loop_empty Let_def)

subsection \<open>One call of done\<close>

lemma settle_no_callbacks:
  "fstate w f = Pending \<Longrightarrow> fcallbacks w f = [] \<Longrightarrow>
   settle call f st w = Some (None, w\<lparr>fstate := (fstate w)(f := st)\<rparr>)"
  by (simp add: settle_def)

lemma parallel_done_resolved:
  assumes "f \<in> set (j_futures (joins w j))" "fstate w f = Resolved v"
    "fstate w (j_result_future (joins w j)) = Pending"
    "fcallbacks w (j_result_future (joins w j)) = []"
  shows "parallel_done call j f w = Some (None,
      w\<lparr>joins := (joins w)(j := (joins w j)\<lparr>j_futures := remove1 f (j_futures (joins w j)),
                                             j_results := od_set f v (j_results (joins w j))\<rparr>),
        fstate := (if remove1 f (j_futures (joins w j)) = []
                   then (fstate w)(j_result_future (joins w j) :=
                          Resolved (VList (map snd (od_set f v (j_results (joins w j))))))
                   else fstate w)\<rparr>)"
  using assms by (simp add: parallel_done_def Let_def set_result_def settle_no_callbacks)

lemma parallel_done_failed:
  assumes "f \<in> set (j_futures (joins w j))" "fstate w f = Failed e"
  shows "parallel_done call j f w = Some (Some e,
      w\<lparr>joins := (joins w)(j := (joins w j)\<lparr>j_futures := remove1 f (j_futures (joins w j))\<rparr>)\<rparr>)"
  using assms by (simp add: parallel_done_def Let_def)

lemma invoke_Done: "invoke (Suc n) (Done j) f w = parallel_done (invoke n) j f w"
  by simp

lemma run_callbacks_Done:
  "parallel_done (invoke n) j f w = Some (x, w') \<Longrightarrow>
   run_callbacks (invoke (Suc n)) (Done j # cbs) f w =
   run_callbacks (invoke (Suc n)) cbs f (log_escaped x w')"
  by (simp del: invoke.simps add: invoke_Done)

lemma done_once_resolved:
  assumes "count_list (j_futures (joins w j)) f = Suc 0" "fstate w f = Resolved v"
    "fstate w (j_result_future (joins w j)) = Pending"
    "fcallbacks w (j_result_future (joins w j)) = []"
  shows "run_callbacks (invoke (Suc n)) (replicate (Suc 0) (Done j)) f w = Some (
     w\<lparr>joins := (joins w)(j := (joins w j)\<lparr>j_futures := removeAll f (j_futures (joins w j)),
                                            j_results := od_set f v (j_results (joins w j))\<rparr>),
       fstate := (if removeAll f (j_futures (joins w j)) = []
                  then (fstate w)(j_result_future (joins w j) :=
                         Resolved (VList (map snd (od_set f v (j_results (joins w j))))))
                  else fstate w)\<rparr>)"
proof -
  from assms(1) have mem: "f \<in> set (j_futures (joins w j))" by (rule count_pos_mem)
  have r: "remove1 f (j_futures (joins w j)) = removeAll f (j_futures (joins w j))"
    using assms(1) by (rule remove1_single)
  note step = parallel_done_resolved [OF mem assms(2-), of "invoke n"]
  show ?thesis
    by (simp only: replicate.simps run_callbacks_Done [OF step] r)
      (simp add: log_escaped_def)
qed

lemma done_once_failed:
  assumes "count_list (j_futures (joins w j)) f = Suc 0" "fstate w f = Failed e"
  shows "run_callbacks (invoke (Suc n)) (replicate (Suc 0) (Done j)) f w = Some (
     w\<lparr>joins := (joins w)(j := (joins w j)\<lparr>j_futures := removeAll f (j_futures (joins w j))\<rparr>),
       escaped := escaped w @ replicate (Suc 0) e\<rparr>)"
proof -
  from assms(1) have mem: "f \<in> set (j_futures (joins w j))" by (rule count_pos_mem)
  have r: "remove1 f (j_futures (joins w j)) = removeAll f (j_futures (joins w j))"
    using assms(1) by (rule remove1_single)
  note step = parallel_done_failed [OF mem assms(2), of "invoke n"]
  show ?thesis
    by (simp only: replicate.simps run_callbacks_Done [OF step] r)
      (simp add: log_escaped_def)
qed

lemma done_loop_resolved:
  "count_list (j_futures (joins w j)) f = Suc m \<Longrightarrow> fstate w f = Resolved v \<Longrightarrow>
   fstate w (j_result_future (joins w j)) = Pending \<Longrightarrow>
   fcallbacks w (j_result_future (joins w j)) = [] \<Longrightarrow>
   run_callbacks (invoke (Suc n)) (replicate (Suc m) (Done j)) f w = Some (
     w\<lparr>joins := (joins w)(j := (joins w j)\<lparr>j_futures := removeAll f (j_futures (joins w j)),
                                            j_results := od_set f v (j_results (joins w j))\<rparr>),
       fstate := (if removeAll f (j_futures (joins w j)) = []
                  then (fstate w)(j_result_future (joins w j) :=
                         Resolved (VList (map snd (od_set f v (j_results (joins w j))))))
                  else fstate w)\<rparr>)"
proof (induction m arbitrary: w)
  case 0
  then show ?case by (rule done_once_resolved)
next
  case (Suc m)
  let ?L = "j_futures (joins w j)"
  from Suc.prems(1) have mem: "f \<in> set ?L" by (rule count_pos_mem)
  have c1: "count_list (remove1 f ?L) f = Suc m"
    using Suc.prems(1) by (simp add: count_list_remove1)
  then have "f \<in> set (remove1 f ?L)" by (rule count_pos_mem)
  then have ne: "remove1 f ?L \<noteq> []" by force
  let ?w1 = "w\<lparr>joins := (joins w)(j := (joins w j)\<lparr>j_futures := remove1 f ?L,
                                             j_results := od_set f v (j_results (joins w j))\<rparr>)\<rparr>"
  have step: "parallel_done (invoke n) j f w = Some (None, ?w1)"
    using Suc.prems ne by (simp add: parallel_done_resolved [OF mem])
  have ih: "run_callbacks (invoke (Suc n)) (replicate (Suc m) (Done j)) f ?w1 = Some (
     ?w1\<lparr>joins := (joins ?w1)(j := (joins ?w1 j)\<lparr>j_futures := removeAll f (j_futures (joins ?w1 j)),
                                            j_results := od_set f v (j_results (joins ?w1 j))\<rparr>),
       fstate := (if removeAll f (j_futures (joins ?w1 j)) = []
                  then (fstate ?w1)(j_result_future (joins ?w1 j) :=
                         Resolved (VList (map snd (od_set f v (j_results (joins ?w1 j))))))
                  else fstate ?w1)\<rparr>)"
    using Suc.prems c1 by (intro Suc.IH) simp_all
  have e1: "run_callbacks (invoke (Suc n)) (replicate (Suc (Suc m)) (Done j)) f w =
        run_callbacks (invoke (Suc n)) (replicate (Suc m) (Done j)) f ?w1"
    using run_callbacks_Done [OF step, of "replicate (Suc m) (Done j)"]
    by (simp del: invoke.simps run_callbacks.simps add: log_escaped_def)
  have "run_callbacks (invoke (Suc n)) (replicate (Suc (Suc m)) (Done j)) f w = Some (
     w\<lparr>joins := (joins w)(j := (joins w j)\<lparr>j_futures := removeAll f (j_futures (joins w j)),
                                            j_results := od_set f v (j_results (joins w j))\<rparr>),
       fstate := (if removeAll f (j_futures (joins w j)) = []
                  then (fstate w)(j_result_future (joins w j) :=
                         Resolved (VList (map snd (od_set f v (j_results (joins w j))))))
                  else fstate w)\<rparr>)"
    unfolding e1 ih by (simp add: removeAll_remove1 od_set_idem)
  then show ?case .
qed

lemma done_loop_failed:
  "count_list (j_futures (joins w j)) f = Suc m \<Longrightarrow> fstate w f = Failed e \<Longrightarrow>
   run_callbacks (invoke (Suc n)) (replicate (Suc m) (Done j)) f w = Some (
     w\<lparr>joins := (joins w)(j := (joins w j)\<lparr>j_futures := removeAll f (j_futures (joins w j))\<rparr>),
       escaped := escaped w @ replicate (Suc m) e\<rparr>)"
proof (induction m arbitrary: w)
  case 0
  then show ?case by (rule done_once_failed)
next
  case (Suc m)
  let ?L = "j_futures (joins w j)"
  from Suc.prems(1) have mem: "f \<in> set ?L" by (rule count_pos_mem)
  have c1: "count_list (remove1 f ?L) f = Suc m"
    using Suc.prems(1) by (simp add: count_list_remove1)
  let ?w1 = "w\<lparr>joins := (joins w)(j := (joins w j)\<lparr>j_futures := remove1 f ?L\<rparr>),
                escaped := escaped w @ [e]\<rparr>"
  note step = parallel_done_failed [OF mem Suc.prems(2), of "invoke n"]
  have ih: "run_callbacks (invoke (Suc n)) (replicate (Suc m) (Done j)) f ?w1 = Some (
     ?w1\<lparr>joins := (joins ?w1)(j := (joins ?w1 j)\<lparr>j_futures := removeAll f (j_futures (joins ?w1 j))\<rparr>),
       escaped := escaped ?w1 @ replicate (Suc m) e\<rparr>)"
    using Suc.prems c1 by (intro Suc.IH) simp_all
  have e1: "run_callbacks (invoke (Suc n)) (replicate (Suc (Suc m)) (Done j)) f w =
        run_callbacks (invoke (Suc n)) (replicate (Suc m) (Done j)) f ?w1"
    using run_callbacks_Done [OF step, of "replicate (Suc m) (Done j)"]
    by (simp del: invoke.simps run_callbacks.simps add: log_escaped_def)
  have "run_callbacks (invoke (Suc n)) (replicate (Suc (Suc m)) (Done j)) f w = Some (
     w\<lparr>joins := (joins w)(j := (joins w j)\<lparr>j_futures := removeAll f (j_futures (joins w j))\<rparr>),
       escaped := escaped w @ replicate (Suc (Suc m)) e\<rparr>)"
    unfolding e1 ih by (simp add: removeAll_remove1 replicate_append_same)
  then show ?case .
qed

subsection \<open>Inputs that are pending when parallel is called\<close>

lemma parallel_loop_pending:
  "j_futures (joins w j) = fs \<Longrightarrow> \<forall>f\<in>set fs. fstate w f = Pending \<Longrightarrow> i + k = length fs \<Longrightarrow>
   parallel_loop call j i k w =
     Some (None, w\<lparr>fcallbacks := (\<lambda>f. fcallbacks w f @ replicate (count_list (drop i fs) f) (Done j))\<rparr>)"
proof (induction k arbitrary: i w)
  case 0
  then show ?case by simp
next
  case (Suc k)
  from Suc.prems have i: "i < length fs" by simp
  then have p: "fstate w (fs ! i) = Pending" using Suc.prems(2) by simp
  let ?w' = "w\<lparr>fcallbacks := (fcallbacks w)(fs ! i := fcallbacks w (fs ! i) @ [Done j])\<rparr>"
  have a: "add_done_callback call (fs ! i) (Done j) w = Some (None, ?w')"
    using p by (simp add: add_done_callback_def)
  have ih: "parallel_loop call j (Suc i) k ?w' =
     Some (None, ?w'\<lparr>fcallbacks := (\<lambda>f. fcallbacks ?w' f @ replicate (count_list (drop (Suc i) fs) f) (Done j))\<rparr>)"
    using Suc.prems by (intro Suc.IH) simp_all
  have d: "drop i fs = fs ! i # drop (Suc i) fs" using i by (simp add: Cons_nth_drop_Suc)
  have "(\<lambda>f. fcallbacks ?w' f @ replicate (count_list (drop (Suc i) fs) f) (Done j)) =
        (\<lambda>f. fcallbacks w f @ replicate (count_list (drop i fs) f) (Done j))"
    by (rule ext) (simp add: d)
  with ih a i Suc.prems(1) show ?case by simp
qed

lemma parallel_pending:
  assumes "\<forall>f\<in>set fs. f < nfutures w \<and> fstate w f = Pending"
  shows "parallel call fs w = Some (Inr (nfutures w),
     w\<lparr>fstate := (fstate w)(nfutures w := Pending),
       fcallbacks := (\<lambda>f. ((fcallbacks w)(nfutures w := [])) f @ replicate (count_list fs f) (Done (njoins w))),
       nfutures := Suc (nfutures w),
       joins := (joins w)(njoins w := \<lparr>j_result_future = nfutures w, j_results = od_init fs, j_futures = fs\<rparr>),
       njoins := Suc (njoins w)\<rparr>)"
proof -
  let ?w2 = "w\<lparr>fstate := (fstate w)(nfutures w := Pending),
       fcallbacks := (fcallbacks w)(nfutures w := []),
       nfutures := Suc (nfutures w),
       joins := (joins w)(njoins w := \<lparr>j_result_future = nfutures w, j_results = od_init fs, j_futures = fs\<rparr>),
       njoins := Suc (njoins w)\<rparr>"
  have "parallel_loop call (njoins w) 0 (length fs) ?w2 =
     Some (None, ?w2\<lparr>fcallbacks := (\<lambda>f. fcallbacks ?w2 f @ replicate (count_list (drop 0 fs) f) (Done (njoins w)))\<rparr>)"
    using assms by (intro parallel_loop_pending) auto
  then show ?thesis by (simp add: parallel_def Future_def Let_def)
qed

lemma join_invD:
  assumes inv: "join_inv w j rf fs st" 
  shows "j_result_future (joins w j) = rf" "rf \<notin> set fs" "fcallbacks w rf = []"
    and "j_futures (joins w j) = filter (\<lambda>f. st f = Pending) fs"
    and  "j_results (joins w j) = map (\<lambda>f. (f, result_of (st f))) (first_occurrences fs)"
    and  "\<forall>f\<in>set fs. fstate w f = st f"
    and  "\<forall>f\<in>set fs. st f = Pending \<longrightarrow> fcallbacks w f = replicate (count_list fs f) (Done j)"
    and  "\<forall>e. fstate w rf \<noteq> Failed e"
    and  "(\<exists>f\<in>set fs. st f = Pending) \<longrightarrow> fstate w rf = Pending"
  using inv unfolding join_inv_def by blast+

lemma join_step:
  assumes inv: "join_inv w j rf fs st" and f: "f \<in> set fs" "st f = Pending" and s: "s \<noteq> Pending"
  shows "\<exists>w'. settle (invoke (Suc n)) f s w = Some (None, w') \<and> join_inv w' j rf fs (st(f := s)) \<and>
     (case s of
        Resolved v \<Rightarrow> escaped w' = escaped w \<and>
          ((\<forall>g\<in>set fs. (st(f := s)) g \<noteq> Pending) \<longrightarrow>
             fstate w' rf = Resolved (VList (map (\<lambda>g. result_of ((st(f := s)) g)) (first_occurrences fs))))
      | Failed e \<Rightarrow> escaped w' = escaped w @ replicate (count_list fs f) e \<and> fstate w' rf = fstate w rf
      | Pending \<Rightarrow> True)"
proof -
  note rf = join_invD(1-3) [OF inv]
  note L = join_invD(4) [OF inv]
  note R = join_invD(5) [OF inv]
  note S = join_invD(6) [OF inv]
  note C = join_invD(7) [OF inv]
  note NF = join_invD(8) [OF inv]
  note P = join_invD(9) [OF inv]
  from count_list_Suc [OF f(1)] obtain m where m: "count_list fs f = Suc m" ..
  from S f(1) have "fstate w f = st f" by (rule bspec)
  then have fp: "fstate w f = Pending" by (simp only: f(2))
  from C f(1) have "st f = Pending \<longrightarrow> fcallbacks w f = replicate (count_list fs f) (Done j)"
    by (rule bspec)
  from this f(2) have "fcallbacks w f = replicate (count_list fs f) (Done j)" by (rule mp)
  then have cb: "fcallbacks w f = replicate (Suc m) (Done j)" by (simp only: m)
  from f(2) f(1) have "\<exists>f\<in>set fs. st f = Pending" by (rule bexI)
  with P have rfp: "fstate w rf = Pending" by (rule mp)
  from f(1) rf(2) have ne: "rf \<noteq> f" by blast
  let ?w1 = "w\<lparr>fstate := (fstate w)(f := s)\<rparr>"
  have cnt: "count_list (j_futures (joins ?w1 j)) f = Suc m"
    using L f m by (simp add: count_list_filter)
  have rfp1: "fstate ?w1 (j_result_future (joins ?w1 j)) = Pending"
    using rf rfp ne by simp
  have cb1: "fcallbacks ?w1 (j_result_future (joins ?w1 j)) = []"
    using rf by simp
  have se: "settle (invoke (Suc n)) f s w =
      (case run_callbacks (invoke (Suc n)) (replicate (Suc m) (Done j)) f ?w1 of
         None \<Rightarrow> None | Some w' \<Rightarrow> Some (None, w'))"
    using fp cb by (simp add: settle_def del: invoke.simps run_callbacks.simps replicate.simps)
  show ?thesis
  proof (cases s)
    case Pending
    with s show ?thesis by simp
  next
    case (Resolved v)
    have f1: "fstate ?w1 f = Resolved v" using Resolved by simp
    note loop = done_loop_resolved [OF cnt f1 rfp1 cb1, of n]
    let ?w' = "?w1\<lparr>joins := (joins ?w1)(j := (joins ?w1 j)\<lparr>j_futures := removeAll f (j_futures (joins ?w1 j)),
                                            j_results := od_set f v (j_results (joins ?w1 j))\<rparr>),
       fstate := (if removeAll f (j_futures (joins ?w1 j)) = []
                  then (fstate ?w1)(j_result_future (joins ?w1 j) :=
                         Resolved (VList (map snd (od_set f v (j_results (joins ?w1 j))))))
                  else fstate ?w1)\<rparr>"
    have 1: "settle (invoke (Suc n)) f s w = Some (None, ?w')"
      unfolding se loop by simp
    have L': "j_futures (joins ?w' j) = filter (\<lambda>g. (st(f := s)) g = Pending) fs"
      using L s by (simp add: removeAll_filter_pending)
    have R': "j_results (joins ?w' j) = map (\<lambda>g. (g, result_of ((st(f := s)) g))) (first_occurrences fs)"
      using R f Resolved by (simp add: od_set_map result_of_def fun_upd_def)
    have empty_iff: "removeAll f (j_futures (joins ?w1 j)) = [] \<longleftrightarrow> (\<forall>g\<in>set fs. (st(f := s)) g \<noteq> Pending)"
      using L s by (simp add: removeAll_filter_pending filter_empty_conv)
    have 2: "join_inv ?w' j rf fs (st(f := s))"
      unfolding join_inv_def
      apply (intro conjI)
      subgoal using rf by simp
      subgoal using rf by simp
      subgoal using rf by simp
      subgoal by (rule L')
      subgoal by (rule R')
      subgoal using S rf Resolved by auto
      subgoal using C s by auto
      subgoal using NF rf ne by auto
      subgoal using empty_iff rf rfp ne by auto
      done
    have 3: "escaped ?w' = escaped w" by simp
    have 4: "(\<forall>g\<in>set fs. (st(f := s)) g \<noteq> Pending) \<longrightarrow>
             fstate ?w' rf = Resolved (VList (map (\<lambda>g. result_of ((st(f := s)) g)) (first_occurrences fs)))"
      using empty_iff rf R' by (auto simp: o_def)
    have 5: "escaped ?w' = escaped w \<and>
          ((\<forall>g\<in>set fs. (st(f := s)) g \<noteq> Pending) \<longrightarrow>
             fstate ?w' rf = Resolved (VList (map (\<lambda>g. result_of ((st(f := s)) g)) (first_occurrences fs))))"
      using 3 4 by (rule conjI)
    show ?thesis
      apply (rule exI [of _ ?w'])
      apply (intro conjI)
        apply (rule 1)
       apply (rule 2)
      apply (simp only: Resolved fut_state.case)
      apply (rule 5 [unfolded Resolved])
      done
  next
    case (Failed e)
    have f1: "fstate ?w1 f = Failed e" using Failed by simp
    note loop = done_loop_failed [OF cnt f1, of n]
    let ?w' = "?w1\<lparr>joins := (joins ?w1)(j := (joins ?w1 j)\<lparr>j_futures := removeAll f (j_futures (joins ?w1 j))\<rparr>),
       escaped := escaped ?w1 @ replicate (Suc m) e\<rparr>"
    have 1: "settle (invoke (Suc n)) f s w = Some (None, ?w')"
      unfolding se loop by simp
    have L': "j_futures (joins ?w' j) = filter (\<lambda>g. (st(f := s)) g = Pending) fs"
      using L s by (simp add: removeAll_filter_pending)
    have R': "j_results (joins ?w' j) = map (\<lambda>g. (g, result_of ((st(f := s)) g))) (first_occurrences fs)"
      using R f Failed by (auto simp: result_of_def)
    have 2: "join_inv ?w' j rf fs (st(f := s))"
      unfolding join_inv_def
      apply (intro conjI)
      subgoal using rf by simp
      subgoal using rf by simp
      subgoal using rf by simp
      subgoal by (rule L')
      subgoal by (rule R')
      subgoal using S rf Failed by auto
      subgoal using C s by auto
      subgoal using NF rf ne by auto
      subgoal using rf rfp ne by auto
      done
    have 3: "escaped ?w' = escaped w @ replicate (count_list fs f) e" using m by simp
    have 4: "fstate ?w' rf = fstate w rf" using ne by simp
    have 5: "escaped ?w' = escaped w @ replicate (count_list fs f) e \<and> fstate ?w' rf = fstate w rf"
      using 3 4 by (rule conjI)
    show ?thesis
      apply (rule exI [of _ ?w'])
      apply (intro conjI)
        apply (rule 1)
       apply (rule 2)
      apply (simp only: Failed fut_state.case)
      apply (rule 5 [unfolded Failed])
      done
  qed
qed

lemma parallel_inv:
  assumes "pending_inputs w fs"
  shows "\<exists>w1. parallel call fs w = Some (Inr (nfutures w), w1) \<and>
           join_inv w1 (njoins w) (nfutures w) fs (\<lambda>_. Pending) \<and> escaped w1 = escaped w"
proof -
  from assms have a: "\<forall>f\<in>set fs. f < nfutures w \<and> fstate w f = Pending"
    and c: "\<forall>f\<in>set fs. fcallbacks w f = []"
    and n: "nfutures w \<notin> set fs"
    by (auto simp: pending_inputs_def)
  let ?w1 = "w\<lparr>fstate := (fstate w)(nfutures w := Pending),
       fcallbacks := (\<lambda>f. ((fcallbacks w)(nfutures w := [])) f @ replicate (count_list fs f) (Done (njoins w))),
       nfutures := Suc (nfutures w),
       joins := (joins w)(njoins w := \<lparr>j_result_future = nfutures w, j_results = od_init fs, j_futures = fs\<rparr>),
       njoins := Suc (njoins w)\<rparr>"
  have 1: "parallel call fs w = Some (Inr (nfutures w), ?w1)"
    by (rule parallel_pending [OF a])
  have 2: "join_inv ?w1 (njoins w) (nfutures w) fs (\<lambda>_. Pending)"
    unfolding join_inv_def
    apply (intro conjI)
    subgoal by simp
    subgoal by (rule n)
    subgoal using n by (simp add: count_list_0_iff)
    subgoal by simp
    subgoal by (simp add: od_init_keys result_of_def)
    subgoal using a n by auto
    subgoal using c n by auto
    subgoal by simp
    subgoal by simp
    done
  have 3: "escaped ?w1 = escaped w" by simp
  from 1 2 3 show ?thesis by blast
qed

lemma escapes_Cons:
  "escapes fs (ev # evs) = (case snd ev of Failed e \<Rightarrow> replicate (count_list fs (fst ev)) e
      | Resolved v \<Rightarrow> [] | Pending \<Rightarrow> []) @ escapes fs evs"
  by (simp add: escapes_def)

lemma record_events_Cons: "record_events (ev # evs) st = record_events evs (st(fst ev := snd ev))"
  by (simp add: record_events_def)

lemma record_events_map_of:
  "distinct (map fst evs) \<Longrightarrow>
   record_events evs st f = (case map_of evs f of None \<Rightarrow> st f | Some s \<Rightarrow> s)"
proof (induction evs arbitrary: st)
  case Nil
  show ?case by (simp add: record_events_def)
next
  case (Cons ev evs)
  obtain g s where ev: "ev = (g, s)" by (cases ev)
  from Cons.prems have d: "distinct (map fst evs)" and ng: "g \<notin> fst ` set evs" by (auto simp: ev)
  have "record_events (ev # evs) st f = record_events evs (st(g := s)) f"
    by (simp add: record_events_Cons ev)
  also have "\<dots> = (case map_of evs f of None \<Rightarrow> (st(g := s)) f | Some s' \<Rightarrow> s')"
    by (rule Cons.IH [OF d])
  also have "\<dots> = (case map_of (ev # evs) f of None \<Rightarrow> st f | Some s' \<Rightarrow> s')"
  proof -
    from ng have "map_of evs g = None" by (simp add: map_of_eq_None_iff)
    then show ?thesis by (auto simp: ev split: option.splits)
  qed
  finally show ?case .
qed

lemma join_events:
  "join_inv w j rf fs st \<Longrightarrow> distinct (map fst evs) \<Longrightarrow>
   \<forall>ev\<in>set evs. fst ev \<in> set fs \<and> st (fst ev) = Pending \<and> snd ev \<noteq> Pending \<Longrightarrow>
   \<exists>w'. settle_each (invoke (Suc n)) evs w = Some w' \<and>
        join_inv w' j rf fs (record_events evs st) \<and>
        escaped w' = escaped w @ escapes fs evs \<and>
        (evs \<noteq> [] \<and> (\<forall>ev\<in>set evs. \<exists>v. snd ev = Resolved v) \<and>
         (\<forall>g\<in>set fs. record_events evs st g \<noteq> Pending) \<longrightarrow>
           fstate w' rf = Resolved (VList (map (\<lambda>g. result_of (record_events evs st g)) (first_occurrences fs))))"
proof (induction evs arbitrary: w st)
  case Nil
  then show ?case by (simp add: record_events_def escapes_def)
next
  case (Cons ev evs)
  obtain f s where ev: "ev = (f, s)" by (cases ev)
  from Cons.prems(3) have f: "f \<in> set fs" "st f = Pending" and s: "s \<noteq> Pending"
    by (simp_all add: ev)
  from join_step [OF Cons.prems(1) f s, of n] obtain w1 where
    1: "settle (invoke (Suc n)) f s w = Some (None, w1)" and
    2: "join_inv w1 j rf fs (st(f := s))" and
    3: "(case s of
        Resolved v \<Rightarrow> escaped w1 = escaped w \<and>
          ((\<forall>g\<in>set fs. (st(f := s)) g \<noteq> Pending) \<longrightarrow>
             fstate w1 rf = Resolved (VList (map (\<lambda>g. result_of ((st(f := s)) g)) (first_occurrences fs))))
      | Failed e \<Rightarrow> escaped w1 = escaped w @ replicate (count_list fs f) e \<and> fstate w1 rf = fstate w rf
      | Pending \<Rightarrow> True)"
    by blast
  from Cons.prems(2) have d: "distinct (map fst evs)" and nf: "f \<notin> fst ` set evs"
    by (auto simp: ev)
  have p: "\<forall>ev\<in>set evs. fst ev \<in> set fs \<and> (st(f := s)) (fst ev) = Pending \<and> snd ev \<noteq> Pending"
    using Cons.prems(3) nf by (auto simp: ev)
  from Cons.IH [OF 2 d p] obtain w' where
    4: "settle_each (invoke (Suc n)) evs w1 = Some w'" and
    5: "join_inv w' j rf fs (record_events evs (st(f := s)))" and
    6: "escaped w' = escaped w1 @ escapes fs evs" and
    7: "evs \<noteq> [] \<and> (\<forall>ev\<in>set evs. \<exists>v. snd ev = Resolved v) \<and>
         (\<forall>g\<in>set fs. record_events evs (st(f := s)) g \<noteq> Pending) \<longrightarrow>
           fstate w' rf = Resolved (VList (map (\<lambda>g. result_of (record_events evs (st(f := s)) g)) (first_occurrences fs)))"
    by blast
  have re: "record_events (ev # evs) st = record_events evs (st(f := s))"
    by (simp add: record_events_Cons ev)
  have a: "settle_each (invoke (Suc n)) (ev # evs) w = Some w'"
    using 1 4 by (simp add: ev del: invoke.simps)
  have b: "escaped w' = escaped w @ escapes fs (ev # evs)"
    using 3 6 s by (cases s) (simp_all add: escapes_Cons ev)
  have c: "(ev # evs) \<noteq> [] \<and> (\<forall>ev\<in>set (ev # evs). \<exists>v. snd ev = Resolved v) \<and>
         (\<forall>g\<in>set fs. record_events (ev # evs) st g \<noteq> Pending) \<longrightarrow>
           fstate w' rf = Resolved (VList (map (\<lambda>g. result_of (record_events (ev # evs) st g)) (first_occurrences fs)))"
  proof (cases "evs = []")
    case True
    then have w': "w' = w1" using 4 by simp
    show ?thesis
      unfolding re using 3 True w' by (auto simp: ev record_events_def)
  next
    case False
    show ?thesis unfolding re using 7 False by auto
  qed
  have "settle_each (invoke (Suc n)) (ev # evs) w = Some w' \<and>
        join_inv w' j rf fs (record_events (ev # evs) st) \<and>
        escaped w' = escaped w @ escapes fs (ev # evs) \<and>
        ((ev # evs) \<noteq> [] \<and> (\<forall>ev\<in>set (ev # evs). \<exists>v. snd ev = Resolved v) \<and>
         (\<forall>g\<in>set fs. record_events (ev # evs) st g \<noteq> Pending) \<longrightarrow>
           fstate w' rf = Resolved (VList (map (\<lambda>g. result_of (record_events (ev # evs) st g)) (first_occurrences fs))))"
    using a b c 5 re by (simp only: simp_thms)
  then show ?case by (rule exI)
qed

lemma map_of_resolved:
  "map_of (map (\<lambda>r. (fst r, Resolved (snd r))) rs) f = map_option Resolved (map_of rs f)"
  by (induction rs) auto

lemma parallel_join_result:
  assumes p: "pending_inputs w fs" and ne: "fs \<noteq> []"
    and d: "distinct (map fst rs)" and c: "set (map fst rs) = set fs"
  shows "\<exists>w1 w2. parallel (invoke (Suc n)) fs w = Some (Inr (nfutures w), w1) \<and>
          settle_each (invoke (Suc n)) (map (\<lambda>r. (fst r, Resolved (snd r))) rs) w1 = Some w2 \<and>
          fstate w2 (nfutures w) =
            Resolved (VList (map (\<lambda>f. the (map_of rs f)) (first_occurrences fs)))"
proof -
  let ?evs = "map (\<lambda>r. (fst r, Resolved (snd r))) rs"
  let ?st = "\<lambda>_::fid. Pending"
  from parallel_inv [OF p, of "invoke (Suc n)"] obtain w1 where
    1: "parallel (invoke (Suc n)) fs w = Some (Inr (nfutures w), w1)" and
    2: "join_inv w1 (njoins w) (nfutures w) fs ?st"
    by blast
  have d': "distinct (map fst ?evs)" using d by (simp add: o_def)
  have v: "\<forall>ev\<in>set ?evs. fst ev \<in> set fs \<and> ?st (fst ev) = Pending \<and> snd ev \<noteq> Pending"
    using c by auto
  from join_events [OF 2 d' v, of n] obtain w2 where
    3: "settle_each (invoke (Suc n)) ?evs w1 = Some w2" and
    4: "?evs \<noteq> [] \<and> (\<forall>ev\<in>set ?evs. \<exists>v. snd ev = Resolved v) \<and>
         (\<forall>g\<in>set fs. record_events ?evs ?st g \<noteq> Pending) \<longrightarrow>
           fstate w2 (nfutures w) =
             Resolved (VList (map (\<lambda>g. result_of (record_events ?evs ?st g)) (first_occurrences fs)))"
    by blast
  have r: "record_events ?evs ?st g = Resolved (the (map_of rs g))" if "g \<in> set fs" for g
  proof -
    from that c have "g \<in> fst ` set rs" by auto
    then obtain x where "map_of rs g = Some x"
      by (metis map_of_eq_None_iff not_Some_eq)
    then show ?thesis
      by (simp add: record_events_map_of [OF d'] map_of_resolved)
  qed
  have a: "?evs \<noteq> []" using ne c by auto
  have b: "\<forall>ev\<in>set ?evs. \<exists>v. snd ev = Resolved v" by auto
  have e: "\<forall>g\<in>set fs. record_events ?evs ?st g \<noteq> Pending" using r by simp
  from 4 a b e have "fstate w2 (nfutures w) =
      Resolved (VList (map (\<lambda>g. result_of (record_events ?evs ?st g)) (first_occurrences fs)))"
    by blast
  also have "map (\<lambda>g. result_of (record_events ?evs ?st g)) (first_occurrences fs) =
             map (\<lambda>f. the (map_of rs f)) (first_occurrences fs)"
    by (rule map_cong) (simp_all add: r result_of_def)
  finally have 5: "fstate w2 (nfutures w) =
      Resolved (VList (map (\<lambda>f. the (map_of rs f)) (first_occurrences fs)))" .
  from 1 3 5 show ?thesis by blast
qed

lemma parallel_pending_distinct_ordered:
  assumes "pending_inputs w fs" and "fs \<noteq> []" and "distinct fs"
    and "distinct (map fst rs)" and "set (map fst rs) = set fs"
  shows "\<exists>w1 w2. parallel (invoke (Suc n)) fs w = Some (Inr (nfutures w), w1) \<and>
          settle_each (invoke (Suc n)) (map (\<lambda>r. (fst r, Resolved (snd r))) rs) w1 = Some w2 \<and>
          fstate w2 (nfutures w) = Resolved (VList (map (\<lambda>f. the (map_of rs f)) fs))"
  using parallel_join_result [OF assms(1,2,4,5), of n] by (simp add: first_occurrences_id [OF assms(3)])

lemma two_pending_inputs: "pending_inputs two_pending [0, 1, 0]"
  by (simp add: pending_inputs_def two_pending_def empty_world_def)

lemma parallel_one_resolved:
  "\<exists>w'. parallel (invoke (Suc 0)) [0, 1] one_resolved = Some (Inr 2, w') \<and>
        fstate w' 1 = Pending \<and> fcallbacks w' 1 = [] \<and> escaped w' = [] \<and>
        fstate w' 2 = Pending \<and> j_futures (joins w' 0) = [1]"
  by (simp add: parallel_def Future_def Let_def od_init_def add_done_callback_def
      parallel_done_def one_resolved_def empty_world_def)




text \<open>
  C3: for distinct inputs that all resolve, the returned future is claimed to
  resolve to their results in the order of the inputs. That holds when the inputs are
  pending at the call (\<open>parallel_pending_distinct_ordered\<close>). With two inputs that are
  already resolved, \<open>add_done_callback\<close> calls \<open>done\<close> at once; \<open>done\<close> removes the first
  future from the list that the loop is iterating over, the loop ends without reaching
  the second future, and the returned future stays pending with no callback left that
  could complete it.
\<close>

theorem parallel_resolved_inputs_stay_pending:
  "\<exists>w'. parallel (invoke (Suc n)) [0, 1] two_resolved = Some (Inr 2, w') \<and>
        fstate w' 2 = Pending \<and> j_futures (joins w' 0) = [1] \<and>
        fcallbacks w' 0 = [] \<and> fcallbacks w' 1 = [] \<and> fcallbacks w' 2 = []"
  by (simp add: parallel_def Future_def Let_def od_init_def add_done_callback_def
      parallel_done_def two_resolved_def empty_world_def)



section \<open>Properties of coroutine\<close>

lemma resumedD:
  assumes "resumed g (f, s) = Some g1"
  shows "\<exists>ks kt. g = Yield (YFuture f) ks kt \<and>
           ((\<exists>v. s = Resolved v \<and> g1 = ks v) \<or> (\<exists>e. s = Failed e \<and> g1 = kt e))"
  using assms
  by (auto simp: resumed_def split: gen.splits yielded.splits if_splits fut_state.splits)

lemma handle_future_resume:
  assumes "fstate w f = s" and "c_gen (coros w c) = Suspended ks kt"
    and "resumed (Yield (YFuture f) ks kt) (f, s) = Some g1"
  shows "handle_future call c f w =
     settle_outcome call c (fst (resume g1))
       (w\<lparr>coros := (coros w)(c := (coros w c)\<lparr>c_gen := snd (resume g1)\<rparr>)\<rparr>)"
  using assms
  by (auto simp: handle_future_def resumed_def gen_send_def gen_throw_def Let_def
      split: fut_state.splits prod.splits)

lemma settle_single_handler:
  assumes "fstate w f = Pending" and "fcallbacks w f = [HandleFuture c]"
    and "handle_future (invoke n) c f (w\<lparr>fstate := (fstate w)(f := s)\<rparr>) = Some (None, w')"
  shows "settle (invoke (Suc n)) f s w = Some (None, w')"
  using assms by (simp add: settle_def log_escaped_def)

lemma final_stateD:
  "final_state g \<noteq> Pending \<Longrightarrow>
   (\<exists>v. g = Return v \<and> final_state g = Resolved v) \<or> (\<exists>e. g = Raise e \<and> final_state g = Failed e)"
  by (cases g) (simp_all add: final_state_def)

lemma settle_outcome_final:
  assumes "final_state g \<noteq> Pending" and "fstate w (c_return_future (coros w c)) = Pending"
    and "fcallbacks w (c_return_future (coros w c)) = []"
  shows "settle_outcome call c (fst (resume g)) w =
     Some (None, w\<lparr>fstate := (fstate w)(c_return_future (coros w c) := final_state g)\<rparr>)"
  using final_stateD [OF assms(1)] assms(2,3)
  by (auto simp: settle_outcome_def resume_def set_result_def set_exception_def settle_no_callbacks)

lemma settle_outcome_yield_pending:
  assumes "fstate w f2 = Pending"
  shows "settle_outcome call c (fst (resume (Yield (YFuture f2) ks2 kt2))) w =
     Some (None, w\<lparr>fcallbacks := (fcallbacks w)(f2 := fcallbacks w f2 @ [HandleFuture c])\<rparr>)"
  using assms
  by (simp add: settle_outcome_def resume_def chain_def add_done_callback_def)

lemma coroutine_events:
  "c_return_future (coros w c) = rf \<Longrightarrow> fstate w rf = Pending \<Longrightarrow> fcallbacks w rf = [] \<Longrightarrow>
   c_gen (coros w c) = Suspended ks kt \<Longrightarrow> fstate w f = Pending \<Longrightarrow>
   fcallbacks w f = [HandleFuture c] \<Longrightarrow>
   distinct (f # map fst evs) \<Longrightarrow> rf \<notin> set (f # map fst evs) \<Longrightarrow>
   \<forall>g\<in>set (map fst evs). fstate w g = Pending \<and> fcallbacks w g = [] \<Longrightarrow>
   follows (Yield (YFuture f) ks kt) ((f, s) # evs) = Some fin \<Longrightarrow> final_state fin \<noteq> Pending \<Longrightarrow>
   \<exists>w'. settle_each (invoke (Suc n)) ((f, s) # evs) w = Some w' \<and> fstate w' rf = final_state fin"
proof (induction evs arbitrary: w f s ks kt)
  case Nil
  from Nil.prems(10) have r: "resumed (Yield (YFuture f) ks kt) (f, s) = Some fin"
    by (simp split: option.splits)
  from Nil.prems(8) have ne: "rf \<noteq> f" by simp
  let ?w0 = "w\<lparr>fstate := (fstate w)(f := s)\<rparr>"
  let ?w1 = "?w0\<lparr>coros := (coros ?w0)(c := (coros ?w0 c)\<lparr>c_gen := snd (resume fin)\<rparr>)\<rparr>"
  let ?w2 = "?w1\<lparr>fstate := (fstate ?w1)(c_return_future (coros ?w1 c) := final_state fin)\<rparr>"
  have h: "handle_future (invoke n) c f ?w0 =
      settle_outcome (invoke n) c (fst (resume fin)) ?w1"
    using Nil.prems(4) r by (intro handle_future_resume) simp_all
  have o: "settle_outcome (invoke n) c (fst (resume fin)) ?w1 = Some (None, ?w2)"
    using Nil.prems(1,2,3,11) ne by (intro settle_outcome_final) simp_all
  have "settle (invoke (Suc n)) f s w = Some (None, ?w2)"
    using Nil.prems(5,6) h o by (intro settle_single_handler) simp_all
  then have "settle_each (invoke (Suc n)) [(f, s)] w = Some ?w2"
    by (simp del: invoke.simps)
  moreover have "fstate ?w2 rf = final_state fin" using Nil.prems(1) by simp
  ultimately have "settle_each (invoke (Suc n)) [(f, s)] w = Some ?w2 \<and> fstate ?w2 rf = final_state fin"
    by (rule conjI)
  then show ?case by (rule exI)
next
  case (Cons ev evs)
  obtain f2 s2 where ev: "ev = (f2, s2)" by (cases ev)
  from Cons.prems(10) obtain g1 where
    r: "resumed (Yield (YFuture f) ks kt) (f, s) = Some g1" and
    fo: "follows g1 ((f2, s2) # evs) = Some fin"
    by (auto simp: ev split: option.splits)
  from fo obtain g2 where r2: "resumed g1 (f2, s2) = Some g2"
    by (auto split: option.splits)
  from resumedD [OF r2] obtain ks2 kt2 where g1: "g1 = Yield (YFuture f2) ks2 kt2" by blast
  from Cons.prems(8) have ne: "rf \<noteq> f" "rf \<noteq> f2" by (simp_all add: ev)
  from Cons.prems(7) have d: "f \<noteq> f2" "distinct (f2 # map fst evs)" "f \<notin> set (map fst evs)"
    by (auto simp: ev)
  from Cons.prems(9) have p2: "fstate w f2 = Pending" "fcallbacks w f2 = []"
    by (simp_all add: ev)
  let ?w0 = "w\<lparr>fstate := (fstate w)(f := s)\<rparr>"
  let ?w1 = "?w0\<lparr>coros := (coros ?w0)(c := (coros ?w0 c)\<lparr>c_gen := snd (resume g1)\<rparr>)\<rparr>"
  let ?w2 = "?w1\<lparr>fcallbacks := (fcallbacks ?w1)(f2 := fcallbacks ?w1 f2 @ [HandleFuture c])\<rparr>"
  have h: "handle_future (invoke n) c f ?w0 =
      settle_outcome (invoke n) c (fst (resume g1)) ?w1"
    using Cons.prems(4) r by (intro handle_future_resume) simp_all
  have o: "settle_outcome (invoke n) c (fst (resume g1)) ?w1 = Some (None, ?w2)"
    unfolding g1 using p2 d(1) by (intro settle_outcome_yield_pending) simp
  have st: "settle (invoke (Suc n)) f s w = Some (None, ?w2)"
    using Cons.prems(5,6) h o by (intro settle_single_handler) simp_all
  have ih: "\<exists>w'. settle_each (invoke (Suc n)) ((f2, s2) # evs) ?w2 = Some w' \<and>
                fstate w' rf = final_state fin"
  proof (rule Cons.IH [where ks = ks2 and kt = kt2])
    show "c_return_future (coros ?w2 c) = rf" using Cons.prems(1) by simp
    show "fstate ?w2 rf = Pending" using Cons.prems(2) ne by simp
    show "fcallbacks ?w2 rf = []" using Cons.prems(3) ne by simp
    show "c_gen (coros ?w2 c) = Suspended ks2 kt2" by (simp add: g1 resume_def)
    show "fstate ?w2 f2 = Pending" using p2 d(1) by simp
    show "fcallbacks ?w2 f2 = [HandleFuture c]" using p2 by simp
    show "distinct (f2 # map fst evs)" by (rule d(2))
    show "rf \<notin> set (f2 # map fst evs)" using Cons.prems(8) by (simp add: ev)
    show "\<forall>g\<in>set (map fst evs). fstate ?w2 g = Pending \<and> fcallbacks ?w2 g = []"
      using Cons.prems(9) d by (auto simp: ev)
    show "follows (Yield (YFuture f2) ks2 kt2) ((f2, s2) # evs) = Some fin"
      using fo by (simp only: g1)
    show "final_state fin \<noteq> Pending" by (rule Cons.prems(11))
  qed
  then obtain w' where w': "settle_each (invoke (Suc n)) ((f2, s2) # evs) ?w2 = Some w'"
    "fstate w' rf = final_state fin" by blast
  have "settle_each (invoke (Suc n)) ((f, s) # ev # evs) w =
        settle_each (invoke (Suc n)) ((f2, s2) # evs) ?w2"
    using st by (simp add: ev del: invoke.simps)
  with w' have "settle_each (invoke (Suc n)) ((f, s) # ev # evs) w = Some w' \<and>
      fstate w' rf = final_state fin" by simp
  then show ?case by (rule exI)
qed

lemma wrapper_unfold:
  "wrapper call (Generator g) w =
     (case settle_outcome call (ncoros w) (fst (resume g))
             (w\<lparr>fstate := (fstate w)(nfutures w := Pending),
                fcallbacks := (fcallbacks w)(nfutures w := []),
                nfutures := Suc (nfutures w),
                coros := (coros w)(ncoros w := \<lparr>c_gen = snd (resume g), c_return_future = nfutures w\<rparr>),
                ncoros := Suc (ncoros w)\<rparr>) of
        None \<Rightarrow> None
      | Some (Some e, w3) \<Rightarrow> Some (Inl e, w3)
      | Some (None, w3) \<Rightarrow> Some (Inr (nfutures w), w3))"
  by (simp add: wrapper_def wrapper_try_def Future_def Let_def split: prod.splits)

lemma coroutine_script:
  assumes p: "pending_inputs w (map fst script)" and d: "distinct (map fst script)"
    and fo: "follows g script = Some fin" and fin: "final_state fin \<noteq> Pending"
  shows "\<exists>w1 w2. wrapper (invoke (Suc n)) (Generator g) w = Some (Inr (nfutures w), w1) \<and>
           (script \<noteq> [] \<longrightarrow> fstate w1 (nfutures w) = Pending) \<and>
           settle_each (invoke (Suc n)) script w1 = Some w2 \<and>
           fstate w2 (nfutures w) = final_state fin"
proof -
  let ?rf = "nfutures w"
  let ?c = "ncoros w"
  let ?W = "w\<lparr>fstate := (fstate w)(?rf := Pending),
                fcallbacks := (fcallbacks w)(?rf := []),
                nfutures := Suc ?rf,
                coros := (coros w)(?c := \<lparr>c_gen = snd (resume g), c_return_future = ?rf\<rparr>),
                ncoros := Suc ?c\<rparr>"
  show ?thesis
  proof (cases script)
    case Nil
    with fo have g: "g = fin" by simp
    have "settle_outcome (invoke (Suc n)) ?c (fst (resume g)) ?W =
        Some (None, ?W\<lparr>fstate := (fstate ?W)(c_return_future (coros ?W ?c) := final_state g)\<rparr>)"
      using fin g by (intro settle_outcome_final) simp_all
    then have 1: "wrapper (invoke (Suc n)) (Generator g) w =
        Some (Inr ?rf, ?W\<lparr>fstate := (fstate ?W)(c_return_future (coros ?W ?c) := final_state g)\<rparr>)"
      by (simp only: wrapper_unfold option.case prod.case)
    show ?thesis
      apply (rule exI [of _ "?W\<lparr>fstate := (fstate ?W)(c_return_future (coros ?W ?c) := final_state g)\<rparr>"])
      apply (rule exI [of _ "?W\<lparr>fstate := (fstate ?W)(c_return_future (coros ?W ?c) := final_state g)\<rparr>"])
      apply (intro conjI)
         apply (rule 1)
        apply (simp add: Nil)
       apply (simp add: Nil)
      apply (simp add: g)
      done
  next
    case (Cons ev evs)
    obtain f s where ev: "ev = (f, s)" by (cases ev)
    from fo obtain g1 where r: "resumed g (f, s) = Some g1"
      by (auto simp: Cons ev split: option.splits)
    from resumedD [OF r] obtain ks kt where g: "g = Yield (YFuture f) ks kt" by blast
    from p have pf: "f < ?rf" "fstate w f = Pending" "fcallbacks w f = []"
      and pe: "\<forall>g\<in>set (map fst evs). g < ?rf \<and> fstate w g = Pending \<and> fcallbacks w g = []"
      by (simp_all add: pending_inputs_def Cons ev)
    let ?w1 = "?W\<lparr>fcallbacks := (fcallbacks ?W)(f := fcallbacks ?W f @ [HandleFuture ?c])\<rparr>"
    have "settle_outcome (invoke (Suc n)) ?c (fst (resume g)) ?W = Some (None, ?w1)"
      unfolding g using pf by (intro settle_outcome_yield_pending) simp
    then have 1: "wrapper (invoke (Suc n)) (Generator g) w = Some (Inr ?rf, ?w1)"
      by (simp only: wrapper_unfold option.case prod.case)
    have 2: "fstate ?w1 ?rf = Pending" by simp
    have "\<exists>w'. settle_each (invoke (Suc n)) ((f, s) # evs) ?w1 = Some w' \<and>
            fstate w' ?rf = final_state fin"
    proof (rule coroutine_events [where c = ?c and ks = ks and kt = kt])
      show "c_return_future (coros ?w1 ?c) = ?rf" by simp
      show "fstate ?w1 ?rf = Pending" by simp
      show "fcallbacks ?w1 ?rf = []" using pf by simp
      show "c_gen (coros ?w1 ?c) = Suspended ks kt" by (simp add: g resume_def)
      show "fstate ?w1 f = Pending" using pf by simp
      show "fcallbacks ?w1 f = [HandleFuture ?c]" using pf by simp
      show "distinct (f # map fst evs)" using d by (simp add: Cons ev)
      show "?rf \<notin> set (f # map fst evs)" using pf pe by auto
      show "\<forall>g\<in>set (map fst evs). fstate ?w1 g = Pending \<and> fcallbacks ?w1 g = []"
        using pe d by (auto simp: Cons ev)
      show "follows (Yield (YFuture f) ks kt) ((f, s) # evs) = Some fin"
        using fo by (simp only: g Cons ev)
      show "final_state fin \<noteq> Pending" by (rule fin)
    qed
    then obtain w2 where 3: "settle_each (invoke (Suc n)) ((f, s) # evs) ?w1 = Some w2"
      "fstate w2 ?rf = final_state fin" by blast
    show ?thesis
      apply (rule exI [of _ ?w1])
      apply (rule exI [of _ w2])
      apply (intro conjI impI)
         apply (rule 1)
        apply (rule 2)
       apply (simp only: Cons ev 3)
      apply (rule 3)
      done
  qed
qed

lemma two_pending_one: "pending_inputs two_pending [0]"
  by (simp add: pending_inputs_def two_pending_def empty_world_def)

text \<open>
  Generators that yield futures one at a time, each pending and without callback when
  the coroutine starts and settled in the order of the yields: the wrapper returns the
  outer future while it is pending, each settlement resumes the generator, and the
  outer future ends in the state that the end of the generator gives it. The script
  lists the yielded futures with what each is settled to.
\<close>

lemma coroutine_resolves_to_return_value:
  assumes "pending_inputs w (map fst script)" and "distinct (map fst script)"
    and "follows g script = Some (Return r)"
  shows "\<exists>w1 w2. wrapper (invoke (Suc n)) (Generator g) w = Some (Inr (nfutures w), w1) \<and>
           (script \<noteq> [] \<longrightarrow> fstate w1 (nfutures w) = Pending) \<and>
           settle_each (invoke (Suc n)) script w1 = Some w2 \<and>
           fstate w2 (nfutures w) = Resolved r"
  using coroutine_script [OF assms, of n] by (simp add: final_state_def)

lemma coroutine_resolves_to_return_value_witness:
  "pending_inputs two_pending (map fst [(0::fid, Resolved (VInt 5))]) \<and>
   follows plus_one [(0, Resolved (VInt 5))] = Some (Return (VInt (5 + 1))) \<and>
   (\<exists>w1 w2. wrapper (invoke (Suc 0)) (Generator plus_one) two_pending = Some (Inr 2, w1) \<and>
      fstate w1 2 = Pending \<and>
      settle_each (invoke (Suc 0)) [(0, Resolved (VInt 5))] w1 = Some w2 \<and>
      fstate w2 2 = Resolved (VInt 6))"
proof -
  have h1: "pending_inputs two_pending (map fst [(0::fid, Resolved (VInt 5))])"
    using two_pending_one by simp
  have h2: "distinct (map fst [(0::fid, Resolved (VInt 5))])" by simp
  have h3: "follows plus_one [(0, Resolved (VInt 5))] = Some (Return (VInt (5 + 1)))"
    by (simp add: plus_one_def resumed_def)
  have n: "nfutures two_pending = 2" by (simp add: two_pending_def empty_world_def)
  from coroutine_resolves_to_return_value [OF h1 h2 h3, of 0] obtain w1 w2 where
    "wrapper (invoke (Suc 0)) (Generator plus_one) two_pending = Some (Inr (nfutures two_pending), w1)"
    "[(0::fid, Resolved (VInt 5))] \<noteq> [] \<longrightarrow> fstate w1 (nfutures two_pending) = Pending"
    "settle_each (invoke (Suc 0)) [(0, Resolved (VInt 5))] w1 = Some w2"
    "fstate w2 (nfutures two_pending) = Resolved (VInt (5 + 1))"
    by blast
  then have "wrapper (invoke (Suc 0)) (Generator plus_one) two_pending = Some (Inr 2, w1) \<and>
      fstate w1 2 = Pending \<and>
      settle_each (invoke (Suc 0)) [(0, Resolved (VInt 5))] w1 = Some w2 \<and>
      fstate w2 2 = Resolved (VInt 6)"
    by (simp add: n del: invoke.simps)
  with h1 h3 show ?thesis by blast
qed

lemma coroutine_fails_with_uncaught_error:
  assumes "pending_inputs w (map fst script)" and "distinct (map fst script)"
    and "follows g script = Some (Raise e)"
  shows "\<exists>w1 w2. wrapper (invoke (Suc n)) (Generator g) w = Some (Inr (nfutures w), w1) \<and>
           (script \<noteq> [] \<longrightarrow> fstate w1 (nfutures w) = Pending) \<and>
           settle_each (invoke (Suc n)) script w1 = Some w2 \<and>
           fstate w2 (nfutures w) = Failed e"
  using coroutine_script [OF assms, of n] by (simp add: final_state_def)

lemma coroutine_fails_with_uncaught_error_witness:
  "pending_inputs two_pending (map fst [(0::fid, Failed (Error ''E''))]) \<and>
   follows plus_one [(0, Failed (Error ''E''))] = Some (Raise (Error ''E'')) \<and>
   (\<exists>w1 w2. wrapper (invoke (Suc 0)) (Generator plus_one) two_pending = Some (Inr 2, w1) \<and>
      settle_each (invoke (Suc 0)) [(0, Failed (Error ''E''))] w1 = Some w2 \<and>
      fstate w2 2 = Failed (Error ''E''))"
proof -
  have h1: "pending_inputs two_pending (map fst [(0::fid, Failed (Error ''E''))])"
    using two_pending_one by simp
  have h2: "distinct (map fst [(0::fid, Failed (Error ''E''))])" by simp
  have h3: "follows plus_one [(0, Failed (Error ''E''))] = Some (Raise (Error ''E''))"
    by (simp add: plus_one_def resumed_def)
  have n: "nfutures two_pending = 2" by (simp add: two_pending_def empty_world_def)
  from coroutine_fails_with_uncaught_error [OF h1 h2 h3, of 0] obtain w1 w2 where
    "wrapper (invoke (Suc 0)) (Generator plus_one) two_pending = Some (Inr (nfutures two_pending), w1)"
    "settle_each (invoke (Suc 0)) [(0, Failed (Error ''E''))] w1 = Some w2"
    "fstate w2 (nfutures two_pending) = Failed (Error ''E'')"
    by blast
  then have "wrapper (invoke (Suc 0)) (Generator plus_one) two_pending = Some (Inr 2, w1) \<and>
      settle_each (invoke (Suc 0)) [(0, Failed (Error ''E''))] w1 = Some w2 \<and>
      fstate w2 2 = Failed (Error ''E'')"
    by (simp add: n del: invoke.simps)
  with h1 h3 show ?thesis by blast
qed

text \<open>
  C4: for every wrapped generator function the generator is claimed to be resumed
  when what it yielded resolves, and the outer future to resolve to the value it
  returns. A generator that yields a tuple of two futures that are already resolved is
  never resumed: \<open>parallel\<close> leaves its join pending with \<open>done\<close> attached to no input
  (the defect shown for C3), \<open>handle_future\<close> waits on that join, and the outer future
  stays pending.
\<close>

theorem coroutine_tuple_of_resolved_not_resumed:
  "\<exists>w'. wrapper (invoke (Suc n)) (Generator wait_both) two_resolved = Some (Inr 2, w') \<and>
        fstate w' 2 = Pending \<and> c_gen (coros w' 0) \<noteq> Finished \<and>
        fstate w' 3 = Pending \<and> fcallbacks w' 3 = [HandleFuture 0] \<and>
        j_result_future (joins w' 0) = 3 \<and> j_futures (joins w' 0) = [1] \<and>
        fstate w' 0 = Resolved (VInt 10) \<and> fstate w' 1 = Resolved (VInt 20) \<and>
        fcallbacks w' 0 = [] \<and> fcallbacks w' 1 = [] \<and> fcallbacks w' 2 = []"
  by (simp add: wrapper_def wrapper_try_def resume_def wait_both_def settle_outcome_def chain_def
      parallel_def Future_def Let_def od_init_def add_done_callback_def
      parallel_done_def two_resolved_def empty_world_def)

text \<open>
  What the call at line 38 raises leaves \<open>wrapper\<close>; the outer future exists by then and
  stays pending.
\<close>

lemma wrapper_call_raises:
  "wrapper call (Raising e) w =
     Some (Inl e, w\<lparr>fstate := (fstate w)(nfutures w := Pending),
                    fcallbacks := (fcallbacks w)(nfutures w := []),
                    nfutures := Suc (nfutures w)\<rparr>)"
  by (simp add: wrapper_def Future_def)

lemma wait_both_started:
  "\<exists>w1. wrapper call (Generator wait_both) two_pending = Some (Inr 2, w1) \<and>
     fstate w1 = (\<lambda>_. Pending) \<and>
     fcallbacks w1 = (\<lambda>_. [])(0 := [Done 0], 1 := [Done 0], 3 := [HandleFuture 0]) \<and>
     joins w1 0 = \<lparr>j_result_future = 3, j_results = [(0, VNone), (1, VNone)], j_futures = [0, 1]\<rparr> \<and>
     c_gen (coros w1 0) = Suspended (\<lambda>v. Return v) (\<lambda>e. Raise e) \<and>
     c_return_future (coros w1 0) = 2 \<and> escaped w1 = []"
  by (simp add: wrapper_def wrapper_try_def resume_def wait_both_def settle_outcome_def chain_def
      parallel_def Future_def Let_def od_init_def add_done_callback_def
      two_pending_def empty_world_def fun_eq_iff)

text \<open>
  C5: when an awaited future fails and the generator does not handle the exception,
  the outer future is claimed to fail with it. A generator that yields a tuple of two
  pending futures and handles nothing: when the first future fails and the second then
  resolves, the join resolves to the list with \<open>None\<close> for the failed one, the generator
  is resumed with it and the outer future resolves; when the failure comes last, the
  join and the outer future stay pending. In both cases the exception only leaves
  \<open>done\<close>; nothing is thrown into the generator.
\<close>

theorem coroutine_tuple_element_failure_lost:
  "(\<exists>w1 w2. wrapper (invoke (Suc (Suc n))) (Generator wait_both) two_pending = Some (Inr 2, w1) \<and>
      settle_each (invoke (Suc (Suc n))) [(0, Failed (Error ''E'')), (1, Resolved (VInt 20))] w1 = Some w2 \<and>
      fstate w2 2 = Resolved (VList [VNone, VInt 20]) \<and> escaped w2 = [Error ''E'']) \<and>
   (\<exists>w1 w2. wrapper (invoke (Suc (Suc n))) (Generator wait_both) two_pending = Some (Inr 2, w1) \<and>
      settle_each (invoke (Suc (Suc n))) [(1, Resolved (VInt 20)), (0, Failed (Error ''E''))] w1 = Some w2 \<and>
      fstate w2 2 = Pending \<and> fstate w2 3 = Pending \<and> escaped w2 = [Error ''E''])"
proof -
  from wait_both_started [of "invoke (Suc (Suc n))"] obtain w1 where
    w: "wrapper (invoke (Suc (Suc n))) (Generator wait_both) two_pending = Some (Inr 2, w1)" and
    f: "fstate w1 = (\<lambda>_. Pending)" and
    c: "fcallbacks w1 = (\<lambda>_. [])(0 := [Done 0], 1 := [Done 0], 3 := [HandleFuture 0])" and
    j: "joins w1 0 = \<lparr>j_result_future = 3, j_results = [(0, VNone), (1, VNone)], j_futures = [0, 1]\<rparr>" and
    g: "c_gen (coros w1 0) = Suspended (\<lambda>v. Return v) (\<lambda>e. Raise e)" and
    r: "c_return_future (coros w1 0) = 2" and
    e: "escaped w1 = []"
    by blast
  have a: "\<exists>w2. settle_each (invoke (Suc (Suc n))) [(0, Failed (Error ''E'')), (1, Resolved (VInt 20))] w1 = Some w2 \<and>
      fstate w2 2 = Resolved (VList [VNone, VInt 20]) \<and> escaped w2 = [Error ''E'']"
    by (simp add: settle_def f c j g r e parallel_done_def log_escaped_def Let_def set_result_def
        handle_future_def gen_send_def resume_def settle_outcome_def)
  have b: "\<exists>w2. settle_each (invoke (Suc (Suc n))) [(1, Resolved (VInt 20)), (0, Failed (Error ''E''))] w1 = Some w2 \<and>
      fstate w2 2 = Pending \<and> fstate w2 3 = Pending \<and> escaped w2 = [Error ''E'']"
    by (simp add: settle_def f c j g r e parallel_done_def log_escaped_def Let_def set_result_def
        handle_future_def gen_send_def resume_def settle_outcome_def)
  from w a b show ?thesis by blast
qed

lemma settle_outcome_yield_tuple:
  assumes "\<forall>f\<in>set fs. f < nfutures w \<and> fstate w f = Pending"
  shows "\<exists>w1. settle_outcome call c (Yielded (YTuple fs)) w = Some (None, w1) \<and>
           awaits_join w w1 c fs (nfutures w) (njoins w) \<and> coros w1 = coros w"
proof -
  let ?wp = "w\<lparr>fstate := (fstate w)(nfutures w := Pending),
       fcallbacks := (\<lambda>f. ((fcallbacks w)(nfutures w := [])) f @ replicate (count_list fs f) (Done (njoins w))),
       nfutures := Suc (nfutures w),
       joins := (joins w)(njoins w := \<lparr>j_result_future = nfutures w, j_results = od_init fs, j_futures = fs\<rparr>),
       njoins := Suc (njoins w)\<rparr>"
  let ?w1 = "?wp\<lparr>fcallbacks := (fcallbacks ?wp)(nfutures w := fcallbacks ?wp (nfutures w) @ [HandleFuture c])\<rparr>"
  from assms have n: "nfutures w \<notin> set fs" by auto
  have p: "parallel call fs w = Some (Inr (nfutures w), ?wp)"
    by (rule parallel_pending [OF assms])
  have a: "add_done_callback call (nfutures w) (HandleFuture c) ?wp = Some (None, ?w1)"
    by (simp add: add_done_callback_def)
  have 1: "settle_outcome call c (Yielded (YTuple fs)) w = Some (None, ?w1)"
    by (simp only: settle_outcome_def chain_def outcome.case yielded.case p a option.case prod.case sum.case)
  have 2: "awaits_join w ?w1 c fs (nfutures w) (njoins w)"
    using n by (auto simp: awaits_join_def count_list_0_iff)
  have 3: "coros ?w1 = coros w" by simp
  from 1 2 3 show ?thesis by blast
qed



section \<open>Properties of EventLoop\<close>

lemma update_events_mask:
  "handlers s fd = Some hs \<Longrightarrow>
   update_events fd s = Inr (s\<lparr>io_handlers := (io_handlers s)(fd \<mapsto> interest_union (EVENT_MAPPING s) hs)\<rparr>)"
  by (simp add: update_events_def event_keys_def interest_union_def Let_def or.assoc)

lemma do_on_event_unknown: "handlers s fd = None \<Longrightarrow> do_on_event hb fd events s = (None, s)"
  by (simp add: do_on_event_def domIff)

lemma on_ok:
  assumes "handlers s fd = Some hs"
  shows "\<exists>s'. on_read fd cb s = Inr s' \<and> mask_applied s' fd"
    "\<exists>s'. on_write fd cb s = Inr s' \<and> mask_applied s' fd"
    "\<exists>s'. on_error fd cb s = Inr s' \<and> mask_applied s' fd"
  using assms by (simp_all add: on_read_def on_write_def on_error_def update_events_mask mask_applied_def)

lemma off_ok:
  assumes "handlers s fd = Some hs"
  shows "(\<exists>s'. off_read fd cb s = Inr s' \<and> mask_applied s' fd) \<or> (cb \<notin> set (hs Ev_read) \<and> off_read fd cb s = Inl ValueError)"
  "(\<exists>s'. off_write fd cb s = Inr s' \<and> mask_applied s' fd) \<or> (cb \<notin> set (hs Ev_write) \<and> off_write fd cb s = Inl ValueError)"
  "(\<exists>s'. off_error fd cb s = Inr s' \<and> mask_applied s' fd) \<or> (cb \<notin> set (hs Ev_error) \<and> off_error fd cb s = Inl ValueError)"
  using assms by (simp_all add: off_read_def off_write_def off_error_def update_events_mask mask_applied_def)

lemma on_off_read:
  assumes "handlers s fd = Some hs" "hs Ev_read = []"
    "EVENT_MAPPING s Ev_read AND EVENT_MAPPING s Ev_write = 0"
    "EVENT_MAPPING s Ev_read AND EVENT_MAPPING s Ev_error = 0"
  shows "\<exists>s1 s2 m. on_read fd cb s = Inr s1 \<and> off_read fd cb s1 = Inr s2 \<and>
           handles_read fd cb s2 = Inr False \<and> io_handlers s2 fd = Some m \<and>
           m AND EVENT_MAPPING s2 Ev_read = 0 \<and> mask_applied s2 fd"
  using assms
  apply (simp add: on_read_def off_read_def update_events_mask handles_read_def mask_applied_def interest_union_def)
  apply (auto simp: bit.conj_disj_distrib and.commute)
  done



text \<open>
  C9: a readiness notification for a descriptor that is not in the handler table,
  for instance after \<open>unregister\<close>, returns without raising and calls no callback: the
  loop, with its record of calls, is unchanged.
\<close>

theorem dispatch_ignores_unregistered:
  "(handlers s fd = None \<longrightarrow> do_on_event hb fd events s = (None, s)) \<and>
   (\<forall>s'. unregister fd s = Inr s' \<longrightarrow> do_on_event hb fd events s' = (None, s'))"
  by (auto simp: do_on_event_unknown unregister_def split: option.splits)

theorem dispatch_ignores_unregistered_witness:
  "handlers (new_loop tornado_mapping) 3 = None \<and>
   do_on_event (\<lambda>h fd. None) 3 1 (new_loop tornado_mapping) = (None, new_loop tornado_mapping) \<and>
   (\<exists>s'. unregister 3 registered_loop = Inr s' \<and> do_on_event (\<lambda>h fd. None) 3 1 s' = (None, s') \<and>
      invoked s' = [])"
proof -
  have h: "handlers (new_loop tornado_mapping) 3 = None" by (simp add: new_loop_def)
  obtain s' where u: "unregister 3 registered_loop = Inr s'" and i: "invoked s' = []"
    by (simp add: unregister_def registered_loop_def register_def new_loop_def)
  note t = dispatch_ignores_unregistered [of "new_loop tornado_mapping" 3 "\<lambda>h fd. None" 1]
  note t2 = dispatch_ignores_unregistered [of registered_loop 3 "\<lambda>h fd. None" 1]
  from t h have a: "do_on_event (\<lambda>h fd. None) 3 1 (new_loop tornado_mapping) = (None, new_loop tornado_mapping)"
    by blast
  from t2 u have b: "do_on_event (\<lambda>h fd. None) 3 1 s' = (None, s')" by blast
  from h a u b i show ?thesis by blast
qed

lemma fire_idle: "io_callbacks s = [] \<Longrightarrow> io_timeouts s = [] \<Longrightarrow> fire tb s = s"
  by (simp add: fire_def)

lemma fire_n_idle: "io_callbacks s = [] \<Longrightarrow> io_timeouts s = [] \<Longrightarrow> fire_n tb k s = s"
  by (induction k) (simp_all add: fire_idle)

lemma fire_continue:
  assumes "single_periodic s interval task" "\<not> stops (tb task (calls s task))"
  shows "single_periodic (fire tb s) interval task \<and>
         calls (fire tb s) task = Suc (calls s task) \<and>
         io_time (fire tb s) = io_time s + max 0 interval"
  using assms
  by (auto simp: single_periodic_def stops_def fire_def run_timer_def periodic_handler_def
      do_schedule_periodically_def add_timeout_def call_task_def remove_timeout_def log_error_def
      split: task_result.splits)

lemma fire_stop:
  assumes "single_periodic s interval task" "stops (tb task (calls s task))"
  shows "io_callbacks (fire tb s) = [] \<and> io_timeouts (fire tb s) = [] \<and>
         calls (fire tb s) task = Suc (calls s task) \<and>
         io_time (fire tb s) = io_time s + max 0 interval"
  using assms
  by (auto simp: single_periodic_def stops_def fire_def run_timer_def periodic_handler_def
      do_schedule_periodically_def add_timeout_def call_task_def remove_timeout_def log_error_def
      split: task_result.splits)

lemma periodic_count:
  "single_periodic s interval task \<Longrightarrow>
   (\<forall>i<m. \<not> stops (tb task (calls s task + i))) \<Longrightarrow>
   stops (tb task (calls s task + m)) \<Longrightarrow>
   calls (fire_n tb k s) task = calls s task + min k (Suc m) \<and>
   io_time (fire_n tb k s) = io_time s + int (min k (Suc m)) * max 0 interval \<and>
   (Suc m \<le> k \<longrightarrow> io_timeouts (fire_n tb k s) = [])"
proof (induction m arbitrary: s k)
  case 0
  show ?case
  proof (cases k)
    case 0
    then show ?thesis by simp
  next
    case (Suc k')
    from "0.prems"(3) have st: "stops (tb task (calls s task))" by simp
    note fs = fire_stop [where tb = tb, OF "0.prems"(1) st]
    from fs have "fire_n tb k' (fire tb s) = fire tb s" by (simp add: fire_n_idle)
    with fs Suc show ?thesis by simp
  qed
next
  case (Suc m)
  show ?case
  proof (cases k)
    case 0
    then show ?thesis by simp
  next
    case (Suc k')
    from Suc.prems(2) have c0: "\<not> stops (tb task (calls s task))" by force
    note fc = fire_continue [where tb = tb, OF Suc.prems(1) c0]
    have a: "\<forall>i<m. \<not> stops (tb task (calls (fire tb s) task + i))"
      using Suc.prems(2) fc by auto
    have b: "stops (tb task (calls (fire tb s) task + m))"
      using Suc.prems(3) fc by simp
    from Suc.IH [OF conjunct1 [OF fc] a b, of k'] fc Suc show ?thesis
      by (simp add: algebra_simps)
  qed
qed

lemma schedule_single_in_thread:
  "io_callbacks s = [] \<Longrightarrow> io_timeouts s = [] \<Longrightarrow> run_thread s = Some ct \<Longrightarrow>
   single_periodic (snd (schedule_periodically ct interval task s)) interval task \<and>
   calls (snd (schedule_periodically ct interval task s)) = calls s \<and>
   io_time (snd (schedule_periodically ct interval task s)) = io_time s"
  by (simp add: schedule_periodically_def do_schedule_periodically_def add_timeout_def single_periodic_def)

lemma schedule_single_cross_thread:
  "io_callbacks s = [] \<Longrightarrow> io_timeouts s = [] \<Longrightarrow> run_thread s \<noteq> Some ct \<Longrightarrow>
   single_periodic (fire tb (snd (schedule_periodically ct interval task s))) interval task \<and>
   calls (fire tb (snd (schedule_periodically ct interval task s))) = calls s \<and>
   io_time (fire tb (snd (schedule_periodically ct interval task s))) = io_time s"
  by (simp add: schedule_periodically_def do_schedule_periodically_def add_timeout_def single_periodic_def
      schedule_def fire_def run_timer_def log_error_def)




end
